theory Spec2Isabelle
  imports Main "HOL-Library.Word" "HOL-Library.Log_Nat"
begin

unbundle bit_operations_syntax

section \<open>Memory model\<close>

text \<open>
  A \<open>uint8_t\<close> array is a list of 8-bit words, a \<open>char\<close> array a list of
  characters (an Isabelle \<open>char\<close> is one byte). The length of the list is the
  size of the array. C's \<open>int\<close> is modelled by \<open>int\<close>: every index the
  program computes is below the buffer length plus 68, far from the 32-bit limit.
  An access outside its array is a fault of the model, never an unspecified value.
\<close>

type_synonym byte = "8 word"

datatype fault = OutOfBounds

definition rd :: "'a list \<Rightarrow> int \<Rightarrow> fault + 'a" where
  "rd a k = (if 0 \<le> k \<and> k < int (length a) then Inr (a ! nat k) else Inl OutOfBounds)"

definition wr :: "'a list \<Rightarrow> int \<Rightarrow> 'a \<Rightarrow> fault + 'a list" where
  "wr a k v = (if 0 \<le> k \<and> k < int (length a) then Inr (a[nat k := v]) else Inl OutOfBounds)"

definition char_of_byte :: "byte \<Rightarrow> char" where
  "char_of_byte b = char_of (unat b)"

definition NUL :: char where
  "NUL = char_of (0::nat)"

text \<open>\<open>memcpy(dst, &src[start], n)\<close> from a byte array into a char array.\<close>

definition memcpy :: "char list \<Rightarrow> byte list \<Rightarrow> int \<Rightarrow> int \<Rightarrow> fault + char list" where
  "memcpy dst src start n =
     (if 0 \<le> start \<and> 0 \<le> n \<and> start + n \<le> int (length src) \<and> n \<le> int (length dst)
      then Inr (map char_of_byte (take (nat n) (drop (nat start) src)) @ drop (nat n) dst)
      else Inl OutOfBounds)"

section \<open>NDEF text record decoder\<close>

text \<open>
  The test of line 141, \<open>data[i] == 0xD1 && data[i + 1] == 0x01 && data[i + 3] == 0x54\<close>,
  with the short-circuit evaluation of \<open>&&\<close>: a later byte is read only when the
  earlier comparisons hold.
\<close>

definition pattern_at :: "byte list \<Rightarrow> int \<Rightarrow> fault + bool" where
  "pattern_at data i =
     (case rd data i of Inl f \<Rightarrow> Inl f
      | Inr b0 \<Rightarrow> if b0 \<noteq> 0xD1 then Inr False else
     (case rd data (i + 1) of Inl f \<Rightarrow> Inl f
      | Inr b1 \<Rightarrow> if b1 \<noteq> 0x01 then Inr False else
     (case rd data (i + 3) of Inl f \<Rightarrow> Inl f
      | Inr b3 \<Rightarrow> Inr (b3 = 0x54))))"

text \<open>
  The body of the \<open>for\<close> loop (lines 141 to 161) at offset \<open>i\<close>:
  \<open>Some out\<close> is \<open>return true\<close> with the output array \<open>out\<close>, \<open>None\<close> is
  falling through to the next iteration.
\<close>

definition candidate ::
  "byte list \<Rightarrow> int \<Rightarrow> char list \<Rightarrow> int \<Rightarrow> int \<Rightarrow> fault + char list option" where
  "candidate data dataLength textOutput maxTextLength i =
     (case pattern_at data i of Inl f \<Rightarrow> Inl f
      | Inr False \<Rightarrow> Inr None
      | Inr True \<Rightarrow>
     (case rd data (i + 2) of Inl f \<Rightarrow> Inl f
      | Inr payloadLength \<Rightarrow>
     (case rd data (i + 4) of Inl f \<Rightarrow> Inl f
      | Inr statusByte \<Rightarrow>
        let langCodeLength = statusByte AND 0x3F;
            textStart = i + 5 + uint langCodeLength;
            textLength = uint payloadLength - 1 - uint langCodeLength
        in if textLength > 0 \<and> textLength < maxTextLength \<and> textStart + textLength \<le> dataLength
           then (case memcpy textOutput data textStart textLength of Inl f \<Rightarrow> Inl f
                 | Inr out1 \<Rightarrow>
                (case wr out1 textLength NUL of Inl f \<Rightarrow> Inl f
                 | Inr out2 \<Rightarrow> Inr (Some out2)))
           else Inr None)))"

text \<open>The loop \<open>for (int i = 0; i < dataLength - 6; i++)\<close>, entered at \<open>i\<close>.\<close>

function scan ::
  "byte list \<Rightarrow> int \<Rightarrow> char list \<Rightarrow> int \<Rightarrow> int \<Rightarrow> fault + (bool \<times> char list)" where
  "scan data dataLength textOutput maxTextLength i =
     (if i < dataLength - 6
      then (case candidate data dataLength textOutput maxTextLength i of
              Inl f \<Rightarrow> Inl f
            | Inr (Some out) \<Rightarrow> Inr (True, out)
            | Inr None \<Rightarrow> scan data dataLength textOutput maxTextLength (i + 1))
      else Inr (False, textOutput))"
  by pat_completeness auto
termination
  by (relation "measure (\<lambda>(data, dataLength, textOutput, maxTextLength, i). nat (dataLength - 6 - i))")
    auto

declare scan.simps [simp del]

definition parseNDEFTextRecord ::
  "byte list \<Rightarrow> int \<Rightarrow> char list \<Rightarrow> int \<Rightarrow> fault + (bool \<times> char list)" where
  "parseNDEFTextRecord data dataLength textOutput maxTextLength =
     scan data dataLength textOutput maxTextLength 0"

subsection \<open>What the decoder computes at an offset\<close>

text \<open>
  The quantities the statements below speak about: the structural pattern at offset
  \<open>i\<close>, the language code length and text length read there, the three length checks
  of line 152, the text slice, and the output array after a successful copy.
\<close>

definition structural :: "byte list \<Rightarrow> nat \<Rightarrow> bool" where
  "structural data i = (data ! i = 0xD1 \<and> data ! (i + 1) = 0x01 \<and> data ! (i + 3) = 0x54)"

definition lang_len :: "byte list \<Rightarrow> nat \<Rightarrow> nat" where
  "lang_len data i = unat (data ! (i + 4) AND 0x3F)"

definition text_len :: "byte list \<Rightarrow> nat \<Rightarrow> int" where
  "text_len data i = int (unat (data ! (i + 2))) - 1 - int (lang_len data i)"

definition lengths_ok :: "byte list \<Rightarrow> int \<Rightarrow> nat \<Rightarrow> bool" where
  "lengths_ok data maxTextLength i =
     (0 < text_len data i \<and> text_len data i < maxTextLength \<and>
      int i + 5 + int (lang_len data i) + text_len data i \<le> int (length data))"

definition accepts :: "byte list \<Rightarrow> int \<Rightarrow> nat \<Rightarrow> bool" where
  "accepts data maxTextLength i = (structural data i \<and> lengths_ok data maxTextLength i)"

definition text_at :: "byte list \<Rightarrow> nat \<Rightarrow> char list" where
  "text_at data i =
     map char_of_byte (take (nat (text_len data i)) (drop (i + 5 + lang_len data i) data))"

definition deliver :: "char list \<Rightarrow> char list \<Rightarrow> char list" where
  "deliver out txt = txt @ NUL # drop (length txt + 1) out"

section \<open>Single precision arithmetic\<close>

text \<open>
  \<open>currentVolume\<close> is a \<open>float\<close>. A float is modelled by the rational number it
  denotes, and every operation rounds its exact result to the nearest value with a
  24-bit significand, ties to even (IEEE 754 binary32; \<open>double\<close> has 53 bits).
  Overflow and subnormal numbers are left out: the values at stake are volumes up to
  1.1 and their hundredfold.
  \<open>ilog2 x\<close> is the exponent \<open>e\<close> with \<open>2 ^ e \<le> x < 2 ^ (e + 1)\<close> for \<open>x > 0\<close>.
\<close>

definition ilog2 :: "rat \<Rightarrow> int" where
  "ilog2 x = (let (p, q) = quotient_of x;
                  e = bitlen p - bitlen q
              in if power_int 2 e \<le> x then e else e - 1)"

definition round_even :: "rat \<Rightarrow> int" where
  "round_even y = (let f = \<lfloor>y\<rfloor>; r = y - of_int f
                   in if r < 1 / 2 then f else if 1 / 2 < r then f + 1
                      else if even f then f else f + 1)"

definition fround :: "nat \<Rightarrow> rat \<Rightarrow> rat" where
  "fround p x = (if x = 0 then 0
                 else let u = power_int 2 (ilog2 \<bar>x\<bar> - int p + 1)
                      in sgn x * of_int (round_even (\<bar>x\<bar> / u)) * u)"

definition to_float :: "rat \<Rightarrow> rat" where
  "to_float = fround 24"

definition to_double :: "rat \<Rightarrow> rat" where
  "to_double = fround 53"

text \<open>A literal such as \<open>0.1\<close> is a \<open>double\<close> constant, converted when stored in a \<open>float\<close>.\<close>

definition float_lit :: "rat \<Rightarrow> rat" where
  "float_lit x = to_float (to_double x)"

definition float_add :: "rat \<Rightarrow> rat \<Rightarrow> rat" where
  "float_add x y = to_float (x + y)"

definition float_sub :: "rat \<Rightarrow> rat \<Rightarrow> rat" where
  "float_sub x y = to_float (x - y)"

definition float_mul :: "rat \<Rightarrow> rat \<Rightarrow> rat" where
  "float_mul x y = to_float (x * y)"

definition double_div :: "rat \<Rightarrow> rat \<Rightarrow> rat" where
  "double_div x y = to_double (x / y)"

text \<open>The cast \<open>(int)\<close> of a floating point value discards the fraction.\<close>

definition trunc_int :: "rat \<Rightarrow> int" where
  "trunc_int x = (if 0 \<le> x then \<lfloor>x\<rfloor> else \<lceil>x\<rceil>)"

section \<open>Program state and the outside world\<close>

text \<open>
  The state holds the global \<open>currentVolume\<close> and what the program does to its
  devices: the EEPROM contents with the list of writes made, the two mixer gains, the
  files handed to \<open>playSdWav1.play\<close> and the lines printed. Playback is waited for in
  a loop that only polls the player; the model takes it that playback ends.
\<close>

record state =
  currentVolume :: rat
  eeprom :: "int \<Rightarrow> byte"
  eeprom_writes :: "(int \<times> byte) list"
  mixer1_gain :: rat
  mixer2_gain :: rat
  played :: "string list"
  serial :: "string list"

type_synonym page = "byte \<times> byte \<times> byte \<times> byte"

text \<open>
  What one call meets outside the program: the files on the SD card, the tag in the
  field (its UID length and what reading each page gives), and the bytes the stack
  holds where the uninitialised arrays \<open>textBuffer[128]\<close> and \<open>filename[32]\<close> are placed.
\<close>

record env =
  sd_exists :: "string \<Rightarrow> bool"
  tag :: "(nat \<times> (nat \<Rightarrow> page option)) option"
  textBuffer_stack :: "char list"
  filename_stack :: "char list"

definition volumeStep :: rat where
  "volumeStep = float_lit (1 / 10)"

definition minVolume :: rat where
  "minVolume = float_lit (1 / 10)"

definition maxVolume :: rat where
  "maxVolume = float_lit 1"

definition EEPROM_VOLUME_ADDRESS :: int where
  "EEPROM_VOLUME_ADDRESS = 0"

definition EEPROM_write :: "int \<Rightarrow> byte \<Rightarrow> state \<Rightarrow> state" where
  "EEPROM_write a v s = s\<lparr>eeprom := (eeprom s)(a := v), eeprom_writes := eeprom_writes s @ [(a, v)]\<rparr>"

definition EEPROM_read :: "int \<Rightarrow> state \<Rightarrow> byte" where
  "EEPROM_read a s = eeprom s a"

text \<open>\<open>if (SD.exists(f)) { playSdWav1.play(f); ... wait ... }\<close>\<close>

definition play_if_exists :: "env \<Rightarrow> string \<Rightarrow> state \<Rightarrow> state" where
  "play_if_exists e f s = (if sd_exists e f then s\<lparr>played := played s @ [f]\<rparr> else s)"

section \<open>Volume\<close>

text \<open>
  \<open>EEPROM.write\<close> takes a \<open>uint8_t\<close>: the \<open>int\<close> is reduced modulo 256. In
  \<open>currentVolume * 100\<close> the \<open>int\<close> 100 is converted to \<open>float\<close> and the product
  is a \<open>float\<close>. In \<open>volumeInt / 100.0\<close> the division is carried out in \<open>double\<close>
  and its result converted when assigned to \<open>currentVolume\<close>.
\<close>

definition saveVolumeToEEPROM :: "state \<Rightarrow> state" where
  "saveVolumeToEEPROM s =
     (let volumeInt = trunc_int (float_mul (currentVolume s) (to_float 100))
      in EEPROM_write EEPROM_VOLUME_ADDRESS (word_of_int volumeInt) s)"

definition loadVolumeFromEEPROM :: "state \<Rightarrow> state" where
  "loadVolumeFromEEPROM s =
     (let volumeInt = uint (EEPROM_read EEPROM_VOLUME_ADDRESS s)
      in if volumeInt \<le> 100
         then s\<lparr>currentVolume := to_float (double_div (of_int volumeInt) 100)\<rparr>
         else saveVolumeToEEPROM (s\<lparr>currentVolume := float_lit (1 / 2)\<rparr>))"

definition volumeUp :: "env \<Rightarrow> state \<Rightarrow> state" where
  "volumeUp e s =
     (if currentVolume s \<ge> maxVolume then play_if_exists e ''VOLUMEMX.WAV'' s
      else
        let s1 = s\<lparr>currentVolume := float_add (currentVolume s) volumeStep\<rparr>;
            s2 = (if currentVolume s1 > maxVolume then s1\<lparr>currentVolume := maxVolume\<rparr> else s1);
            s3 = s2\<lparr>mixer1_gain := currentVolume s2, mixer2_gain := currentVolume s2\<rparr>;
            s4 = saveVolumeToEEPROM s3
        in play_if_exists e ''VOLUMEUP.WAV'' s4)"

definition volumeDown :: "env \<Rightarrow> state \<Rightarrow> state" where
  "volumeDown e s =
     (if currentVolume s \<le> minVolume then play_if_exists e ''VOLUMEMN.WAV'' s
      else
        let s1 = s\<lparr>currentVolume := float_sub (currentVolume s) volumeStep\<rparr>;
            s2 = (if currentVolume s1 < minVolume then s1\<lparr>currentVolume := minVolume\<rparr> else s1);
            s3 = s2\<lparr>mixer1_gain := currentVolume s2, mixer2_gain := currentVolume s2\<rparr>;
            s4 = saveVolumeToEEPROM s3
        in play_if_exists e ''VOLUMEDN.WAV'' s4)"

section \<open>Strings\<close>

text \<open>
  \<open>toupper\<close> in the C locale changes the letters a to z only. A C string is the
  characters of its array before the first NUL; \<open>strlen\<close> and \<open>strcat\<close> run off the
  array when it holds none.
\<close>

definition toupper :: "char \<Rightarrow> char" where
  "toupper c = (if (97::nat) \<le> of_char c \<and> of_char c \<le> (122::nat)
                then char_of (of_char c - (32::nat)) else c)"

definition c_str :: "char list \<Rightarrow> string" where
  "c_str a = takeWhile (\<lambda>c. c \<noteq> NUL) a"

definition strlen :: "char list \<Rightarrow> fault + int" where
  "strlen a = (if NUL \<in> set a then Inr (int (length (c_str a))) else Inl OutOfBounds)"

definition strcat :: "char list \<Rightarrow> string \<Rightarrow> fault + char list" where
  "strcat dst src =
     (let p = length (c_str dst)
      in if NUL \<in> set dst \<and> p + length src + 1 \<le> length dst
         then Inr (take p dst @ src @ NUL # drop (p + length src + 1) dst)
         else Inl OutOfBounds)"

section \<open>Searching and playing a file\<close>

text \<open>The copy loop of lines 171 to 173, entered at \<open>i\<close>.\<close>

function copy_upper :: "char list \<Rightarrow> char list \<Rightarrow> int \<Rightarrow> int \<Rightarrow> fault + char list" where
  "copy_upper filename textBuffer len i =
     (if i < len \<and> i < 27
      then (case rd textBuffer i of Inl f \<Rightarrow> Inl f
            | Inr c \<Rightarrow>
           (case wr filename i (toupper c) of Inl f \<Rightarrow> Inl f
            | Inr filename' \<Rightarrow> copy_upper filename' textBuffer len (i + 1)))
      else Inr filename)"
  by pat_completeness auto
termination
  by (relation "measure (\<lambda>(filename, textBuffer, len, i). nat (27 - i))") auto

declare copy_upper.simps [simp del]

definition searchAndPlayWAV :: "env \<Rightarrow> char list \<Rightarrow> state \<Rightarrow> fault + (bool \<times> state)" where
  "searchAndPlayWAV e textBuffer s =
     (case strlen textBuffer of Inl f \<Rightarrow> Inl f
      | Inr len \<Rightarrow>
     (case copy_upper (filename_stack e) textBuffer len 0 of Inl f \<Rightarrow> Inl f
      | Inr filename1 \<Rightarrow>
     (case wr filename1 len NUL of Inl f \<Rightarrow> Inl f
      | Inr filename2 \<Rightarrow>
     (case strcat filename2 ''.WAV'' of Inl f \<Rightarrow> Inl f
      | Inr filename \<Rightarrow>
        if sd_exists e (c_str filename)
        then Inr (True, s\<lparr>played := played s @ [c_str filename]\<rparr>)
        else Inr (False, s)))))"

definition playNoMatch :: "env \<Rightarrow> state \<Rightarrow> state" where
  "playNoMatch e s = play_if_exists e ''NOMATCH.WAV'' s"

section \<open>The poll cycle\<close>

text \<open>
  The loop of lines 326 to 328, \<open>for (int i = 0; textBuffer[i]; i++)\<close>, entered at
  \<open>i\<close>. The write is to the index just read.
\<close>

function upcase :: "char list \<Rightarrow> int \<Rightarrow> fault + char list" where
  "upcase textBuffer i =
     (case rd textBuffer i of Inl f \<Rightarrow> Inl f
      | Inr c \<Rightarrow> if c = NUL then Inr textBuffer
                 else upcase (textBuffer[nat i := toupper c]) (i + 1))"
  by pat_completeness auto
termination
  by (relation "measure (\<lambda>(textBuffer, i). length textBuffer - nat i)")
    (auto simp: rd_def split: if_splits)

declare upcase.simps [simp del]

text \<open>Lines 325 to 341: what is done with a decoded text.\<close>

definition handle_text :: "env \<Rightarrow> char list \<Rightarrow> state \<Rightarrow> fault + state" where
  "handle_text e textBuffer s =
     (case upcase textBuffer 0 of Inl f \<Rightarrow> Inl f
      | Inr textBuffer' \<Rightarrow>
        if c_str textBuffer' = ''VOLUMEUP'' then Inr (volumeUp e s)
        else if c_str textBuffer' = ''VOLUMEDN'' then Inr (volumeDown e s)
        else (case searchAndPlayWAV e textBuffer' s of Inl f \<Rightarrow> Inl f
              | Inr (found, s') \<Rightarrow> if \<not> found then Inr (playNoMatch e s') else Inr s'))"

definition page_bytes :: "page \<Rightarrow> byte list" where
  "page_bytes pg = (case pg of (a, b, c, d) \<Rightarrow> [a, b, c, d])"

text \<open>
  The loop of lines 301 to 318 over the pages 4 to 9, entered at page \<open>i\<close>.
  \<open>allData\<close> is the part of the array filled so far, its first \<open>dataIndex\<close> bytes.
\<close>

function read_pages ::
  "(nat \<Rightarrow> page option) \<Rightarrow> nat \<Rightarrow> byte list \<Rightarrow> int \<Rightarrow> bool \<times> byte list \<times> int" where
  "read_pages ntag2xx_ReadPage i allData dataIndex =
     (if i < 10
      then (case ntag2xx_ReadPage i of
              Some pg \<Rightarrow>
                if dataIndex + 4 \<le> 24
                then read_pages ntag2xx_ReadPage (i + 1) (allData @ page_bytes pg) (dataIndex + 4)
                else read_pages ntag2xx_ReadPage (i + 1) allData dataIndex
            | None \<Rightarrow> (False, allData, dataIndex))
      else (True, allData, dataIndex))"
  by pat_completeness auto
termination
  by (relation "measure (\<lambda>(r, i, allData, dataIndex). 10 - i)") auto

declare read_pages.simps [simp del]

definition uid_message :: string where
  "uid_message = ''This doesn'' @ [CHR 0x27] @ ''t seem to be an NTAG203 tag (UUID length != 7 bytes)!''"

definition loop :: "env \<Rightarrow> state \<Rightarrow> fault + state" where
  "loop e s =
     (case tag e of
        None \<Rightarrow> Inr s
      | Some (uidLength, ntag2xx_ReadPage) \<Rightarrow>
          if uidLength = 7
          then (case read_pages ntag2xx_ReadPage 4 [] 0 of
                  (readSuccess, allData, dataIndex) \<Rightarrow>
                    if readSuccess \<and> dataIndex > 0
                    then (case parseNDEFTextRecord allData dataIndex (textBuffer_stack e) 128 of
                            Inl f \<Rightarrow> Inl f
                          | Inr (True, textBuffer) \<Rightarrow> handle_text e textBuffer s
                          | Inr (False, textBuffer) \<Rightarrow> Inr s)
                    else Inr s)
          else Inr (s\<lparr>serial := serial s @ [uid_message]\<rparr>))"

text \<open>
  The states the program can be in once \<open>setup\<close> has loaded the volume from the
  EEPROM of the start-up state \<open>s0\<close>: every later change is a \<open>volumeUp\<close>, a
  \<open>volumeDown\<close> or a whole poll cycle.
\<close>

inductive reachable :: "state \<Rightarrow> state \<Rightarrow> bool" where
  init: "reachable s0 (loadVolumeFromEEPROM s0)"
| up: "reachable s0 s \<Longrightarrow> reachable s0 (volumeUp e s)"
| down: "reachable s0 s \<Longrightarrow> reachable s0 (volumeDown e s)"
| cycle: "reachable s0 s \<Longrightarrow> loop e s = Inr s' \<Longrightarrow> reachable s0 s'"

section \<open>The classifier as specified\<close>

text \<open>
  The specification's classifier, written from its words: uppercase the text, compare
  with the two command names in order, otherwise the asset name is the text with the
  extension appended. \<open>perform\<close> is what the dispatch loop does with each command.
\<close>

datatype command = VolumeUp | VolumeDown | PlayAsset string

definition uppercase :: "string \<Rightarrow> string" where
  "uppercase t = map toupper t"

definition classify_spec :: "string \<Rightarrow> command" where
  "classify_spec t =
     (if uppercase t = ''VOLUMEUP'' then VolumeUp
      else if uppercase t = ''VOLUMEDN'' then VolumeDown
      else PlayAsset (uppercase t @ ''.WAV''))"

definition perform :: "env \<Rightarrow> command \<Rightarrow> state \<Rightarrow> state" where
  "perform e c s =
     (case c of
        VolumeUp \<Rightarrow> volumeUp e s
      | VolumeDown \<Rightarrow> volumeDown e s
      | PlayAsset name \<Rightarrow>
          if sd_exists e name then s\<lparr>played := played s @ [name]\<rparr> else playNoMatch e s)"

section \<open>Example inputs\<close>

text \<open>
  A cleared text buffer; the 24 bytes of pages 4 to 9 of a tag holding the text
  \<open>MUSEUM\<close> with language code \<open>en\<close>; a buffer whose first record has payload
  length 0 and whose second holds \<open>AB\<close>; a buffer whose record occupies its last six
  bytes; and a buffer laid out as padding, record header, language code, text, padding.
\<close>

definition blank_text :: "char list" where
  "blank_text = replicate 128 NUL"

definition tag_museum :: "byte list" where
  "tag_museum = [0x03, 0x0D, 0xD1, 0x01, 0x09, 0x54, 0x02, 0x65, 0x6E, 0x4D, 0x55, 0x53, 0x45,
                 0x55, 0x4D, 0xFE, 0, 0, 0, 0, 0, 0, 0, 0]"

definition tag_two_records :: "byte list" where
  "tag_two_records = [0xD1, 0x01, 0x00, 0x54, 0x00, 0xD1, 0x01, 0x03, 0x54, 0x00, 0x41, 0x42,
                      0, 0, 0, 0, 0, 0, 0, 0, 0, 0, 0, 0]"

definition tag_record_at_end :: "byte list" where
  "tag_record_at_end = [0, 0, 0, 0, 0, 0, 0, 0, 0, 0, 0, 0, 0, 0, 0, 0, 0, 0,
                        0xD1, 0x01, 0x02, 0x54, 0x00, 0x41]"

definition record_buffer ::
  "byte list \<Rightarrow> byte \<Rightarrow> byte \<Rightarrow> byte list \<Rightarrow> byte list \<Rightarrow> byte list \<Rightarrow> byte list" where
  "record_buffer pad1 len status lang txt pad2 =
     pad1 @ [0xD1, 0x01, len, 0x54, status] @ lang @ txt @ pad2"

text \<open>
  The state at power-up with the byte \<open>b\<close> in every EEPROM cell, and an SD card without
  any of the files asked for.
\<close>

definition boot_state :: "byte \<Rightarrow> state" where
  "boot_state b = \<lparr>currentVolume = 1 / 2, eeprom = (\<lambda>a. b), eeprom_writes = [],
                    mixer1_gain = 1, mixer2_gain = 1, played = [], serial = []\<rparr>"

definition no_files :: env where
  "no_files = \<lparr>sd_exists = (\<lambda>f. False), tag = None, textBuffer_stack = blank_text,
                filename_stack = replicate 32 NUL\<rparr>"

text \<open>
  An SD card holding \<open>MUSEUM.WAV\<close> only; a tag whose fourth page read (page 7) fails;
  and a buffer whose record holds a single NUL as its text.
\<close>

definition museum_card :: env where
  "museum_card = \<lparr>sd_exists = (\<lambda>f. f = ''MUSEUM.WAV''), tag = None,
                   textBuffer_stack = blank_text, filename_stack = replicate 32 NUL\<rparr>"

definition fourth_page_fails :: env where
  "fourth_page_fails = \<lparr>sd_exists = (\<lambda>f. True),
                         tag = Some (7, \<lambda>i. if i = 7 then None else Some (0, 0, 0, 0)),
                         textBuffer_stack = blank_text, filename_stack = replicate 32 NUL\<rparr>"

definition tag_nul_text :: "byte list" where
  "tag_nul_text = [0xD1, 0x01, 0x02, 0x54, 0x00, 0x00, 0, 0, 0, 0, 0, 0,
                   0, 0, 0, 0, 0, 0, 0, 0, 0, 0, 0, 0]"

text \<open>
  A buffer whose record has the ten text bytes \<open>VOLUMEUP\<close>, NUL, \<open>X\<close>.
\<close>

definition tag_embedded_nul :: "byte list" where
  "tag_embedded_nul = [0xD1, 0x01, 0x0B, 0x54, 0x00, 0x56, 0x4F, 0x4C, 0x55, 0x4D, 0x45, 0x55,
                       0x50, 0x00, 0x58, 0, 0, 0, 0, 0, 0, 0, 0, 0]"

text \<open>The same card with a tag in the field whose pages 4 to 9 hold \<open>tag_museum\<close>.\<close>

definition museum_tag_present :: env where
  "museum_tag_present = museum_card\<lparr>tag := Some (7, \<lambda>i.
      Some (tag_museum ! (4 * (i - 4)), tag_museum ! (4 * (i - 4) + 1),
            tag_museum ! (4 * (i - 4) + 2), tag_museum ! (4 * (i - 4) + 3)))\<rparr>"

section \<open>The decoder: one step, the whole scan\<close>

text \<open>
  At an offset inside the loop's range every read of the body is inside the buffer, and
  the body returns exactly when the structural pattern and the three length checks hold.
\<close>

lemma pattern_at_eq:
  "int i + 4 < int (length data) \<Longrightarrow> pattern_at data (int i) = Inr (structural data i)"
  by (simp add: pattern_at_def rd_def structural_def nat_add_distrib)

lemma candidate_eq:
  assumes "int i < int (length data) - 6" "maxTextLength \<le> int (length out)"
  shows "candidate data (int (length data)) out maxTextLength (int i) =
         Inr (if accepts data maxTextLength i then Some (deliver out (text_at data i)) else None)"
proof -
  have p: "pattern_at data (int i) = Inr (structural data i)"
    using assms by (intro pattern_at_eq) simp
  have r2: "rd data (int i + 2) = Inr (data ! (i + 2))"
    using assms by (simp add: rd_def nat_add_distrib)
  have r4: "rd data (int i + 4) = Inr (data ! (i + 4))"
    using assms by (simp add: rd_def nat_add_distrib)
  show ?thesis
  proof (cases "accepts data maxTextLength i")
    case False
    then show ?thesis
      by (auto simp: candidate_def p r2 r4 accepts_def lengths_ok_def text_len_def lang_len_def
          Let_def split: bool.splits)
  next
    case True
    let ?n = "text_len data i"
    let ?s = "int i + 5 + int (lang_len data i)"
    from True have ok: "0 < ?n" "?n < maxTextLength" "?s + ?n \<le> int (length data)"
      and st: "structural data i"
      by (simp_all add: accepts_def lengths_ok_def)
    have m: "memcpy out data ?s ?n = Inr (text_at data i @ drop (nat ?n) out)"
      using ok assms by (simp add: memcpy_def text_at_def nat_add_distrib)
    have len: "length (text_at data i) = nat ?n"
      using ok by (simp add: text_at_def)
    have w: "wr (text_at data i @ drop (nat ?n) out) ?n NUL = Inr (deliver out (text_at data i))"
      using ok assms len
      by (simp add: wr_def deliver_def list_update_append drop_Suc Cons_nth_drop_Suc[symmetric] flip: drop_drop)
    show ?thesis
      using True st ok m w
      by (simp add: candidate_def p r2 r4 Let_def text_len_def lang_len_def)
  qed
qed

lemma scan_eq:
  assumes cap: "maxTextLength \<le> int (length out)"
  shows "scan data (int (length data)) out maxTextLength (int i) =
     (case find (accepts data maxTextLength) [i ..< length data - 6] of
        None \<Rightarrow> Inr (False, out)
      | Some j \<Rightarrow> Inr (True, deliver out (text_at data j)))"
proof (induction "length data - 6 - i" arbitrary: i)
  case 0
  then have "\<not> int i < int (length data) - 6" by linarith
  moreover from 0 have "[i ..< length data - 6] = []" by simp
  ultimately show ?case by (simp add: scan.simps)
next
  case (Suc k)
  then have lt: "int i < int (length data) - 6" and lt': "i < length data - 6" by linarith+
  have step: "k = length data - 6 - Suc i" using Suc by linarith
  have upt: "[i ..< length data - 6] = i # [Suc i ..< length data - 6]"
    using lt' by (simp add: upt_conv_Cons)
  have nxt: "int i + 1 = int (Suc i)" by simp
  show ?case
    unfolding upt scan.simps [of data "int (length data)" out maxTextLength "int i"]
      candidate_eq [OF lt cap] nxt Suc.hyps(1) [OF step]
    using lt by simp
qed

lemma parse_eq:
  "maxTextLength \<le> int (length out) \<Longrightarrow>
   parseNDEFTextRecord data (int (length data)) out maxTextLength =
     (case find (accepts data maxTextLength) [0 ..< length data - 6] of
        None \<Rightarrow> Inr (False, out)
      | Some j \<Rightarrow> Inr (True, deliver out (text_at data j)))"
  unfolding parseNDEFTextRecord_def using scan_eq [of maxTextLength out data 0] by simp

lemma find_first:
  assumes "j < n" "P j" "\<forall>k<j. \<not> P k"
  shows "find P [0 ..< n] = Some j"
  using assms by (auto simp: find_Some_iff intro!: exI [of _ j])

lemma length_text_at: "0 \<le> text_len data i \<Longrightarrow>
   int i + 5 + int (lang_len data i) + text_len data i \<le> int (length data) \<Longrightarrow>
   int (length (text_at data i)) = text_len data i"
  by (simp add: text_at_def)

lemma length_deliver: "length txt < length out \<Longrightarrow> length (deliver out txt) = length out"
  by (simp add: deliver_def)

lemma length_examples [simp]:
  "length blank_text = 128" "length tag_museum = 24" "length tag_two_records = 24"
  "length tag_record_at_end = 24"
  by (simp_all add: blank_text_def tag_museum_def tag_two_records_def tag_record_at_end_def)

lemma all_less_set: "(\<forall>k<n. P k) = (\<forall>k \<in> set [0 ..< n]. P k)"
  by auto

lemma record_buffer_nth:
  "record_buffer pad1 len status lang txt pad2 ! length pad1 = 0xD1"
  "record_buffer pad1 len status lang txt pad2 ! (length pad1 + 1) = 0x01"
  "record_buffer pad1 len status lang txt pad2 ! (length pad1 + 2) = len"
  "record_buffer pad1 len status lang txt pad2 ! (length pad1 + 3) = 0x54"
  "record_buffer pad1 len status lang txt pad2 ! (length pad1 + 4) = status"
  by (simp_all add: record_buffer_def nth_append)

lemma record_buffer_length:
  "length (record_buffer pad1 len status lang txt pad2) =
     length pad1 + 5 + length lang + length txt + length pad2"
  by (simp add: record_buffer_def)

lemma record_buffer_drop:
  "drop (length pad1 + 5 + length lang) (record_buffer pad1 len status lang txt pad2) = txt @ pad2"
  by (simp add: record_buffer_def eval_nat_numeral)

subsection \<open>Memory safety of the decoder\<close>

text \<open>
  Claim C10. For every input buffer of length \<open>dataLength\<close> and every output array of
  at least \<open>maxTextLength\<close> characters, the decoder ends without an out-of-bounds
  access: each read of \<open>data\<close> is at an index below \<open>dataLength\<close>, and on success the
  output array holds a text of length \<open>textLength\<close> with \<open>0 < textLength < maxTextLength\<close>,
  the terminator at index \<open>textLength\<close>, and its old contents from index
  \<open>textLength + 1\<close> on, so at most \<open>maxTextLength\<close> characters are written. On
  failure the output array is unchanged.
\<close>

theorem decoder_in_bounds:
  assumes "dataLength = int (length data)" "maxTextLength \<le> int (length textOutput)"
  shows "\<exists>ok out. parseNDEFTextRecord data dataLength textOutput maxTextLength = Inr (ok, out) \<and>
           length out = length textOutput \<and>
           (if ok
            then \<exists>txt. 0 < length txt \<and> int (length txt) < maxTextLength \<and>
                       out = txt @ NUL # drop (length txt + 1) textOutput
            else out = textOutput)"
proof (cases "find (accepts data maxTextLength) [0 ..< length data - 6]")
  case None
  then have "parseNDEFTextRecord data dataLength textOutput maxTextLength = Inr (False, textOutput)"
    using assms by (simp add: parse_eq)
  then show ?thesis by auto
next
  case (Some j)
  then have acc: "accepts data maxTextLength j"
    by (auto simp: find_Some_iff)
  then have l: "0 < text_len data j" "text_len data j < maxTextLength"
      "int j + 5 + int (lang_len data j) + text_len data j \<le> int (length data)"
    by (simp_all add: accepts_def lengths_ok_def)
  have len: "int (length (text_at data j)) = text_len data j"
    using l by (intro length_text_at) simp_all
  have "length (text_at data j) < length textOutput" using len l assms by linarith
  then have "length (deliver textOutput (text_at data j)) = length textOutput"
    by (rule length_deliver)
  moreover have "0 < length (text_at data j)" "int (length (text_at data j)) < maxTextLength"
    using len l by linarith+
  ultimately show ?thesis
    using assms Some by (auto simp: parse_eq deliver_def)
qed

theorem decoder_in_bounds_witness:
  "\<exists>ok out. parseNDEFTextRecord tag_museum 24 blank_text 128 = Inr (ok, out) \<and>
     length out = length blank_text \<and>
     (if ok then \<exists>txt. 0 < length txt \<and> int (length txt) < 128 \<and>
                  out = txt @ NUL # drop (length txt + 1) blank_text
      else out = blank_text)"
  by (rule decoder_in_bounds) simp_all

subsection \<open>Which offsets are scanned\<close>

text \<open>
  Claim C2, amended. For every buffer of length \<open>L\<close> the scan examines the offsets
  \<open>0\<close> to \<open>L - 7\<close> inclusive (\<open>i < L - 6\<close>), left to right, and returns the text of
  the first of them where the structural pattern matches and the length checks pass;
  when there is none it fails and leaves the output untouched. A record starting at
  offset \<open>L - 6\<close> is never examined.
\<close>

theorem scan_first_accepted_offset:
  assumes "maxTextLength \<le> int (length textOutput)"
  shows "parseNDEFTextRecord data (int (length data)) textOutput maxTextLength =
     (case find (accepts data maxTextLength) [0 ..< length data - 6] of
        None \<Rightarrow> Inr (False, textOutput)
      | Some j \<Rightarrow> Inr (True, deliver textOutput (text_at data j)))"
  using assms by (rule parse_eq)

theorem scan_first_accepted_offset_witness:
  "parseNDEFTextRecord tag_museum 24 blank_text 128 =
     Inr (True, ''MUSEUM'' @ replicate 122 NUL)"
proof -
  have e: "parseNDEFTextRecord tag_museum (int (length tag_museum)) blank_text 128 =
     (case find (accepts tag_museum 128) [0 ..< length tag_museum - 6] of
        None \<Rightarrow> Inr (False, blank_text)
      | Some j \<Rightarrow> Inr (True, deliver blank_text (text_at tag_museum j)))"
    by (rule scan_first_accepted_offset) simp
  have f: "find (accepts tag_museum 128) [0 ..< 18] = Some 2"
    by code_simp
  have t: "deliver blank_text (text_at tag_museum 2) = ''MUSEUM'' @ replicate 122 NUL"
    by code_simp
  from e have "parseNDEFTextRecord tag_museum 24 blank_text 128 =
      Inr (True, deliver blank_text (text_at tag_museum 2))"
    by (simp add: f)
  then show ?thesis by (simp only: t)
qed

theorem scan_misses_offset_length_minus_6:
  "accepts tag_record_at_end 128 (length tag_record_at_end - 6) \<and>
   parseNDEFTextRecord tag_record_at_end 24 blank_text 128 = Inr (False, blank_text)"
  by code_simp

subsection \<open>A rejected first match does not end the scan\<close>

text \<open>
  Claim C1, amended. When the structural pattern occurs at an offset \<open>i\<close> whose
  length checks fail, the scan goes on: if \<open>j > i\<close> is the first offset below
  \<open>L - 6\<close> where pattern and length checks both hold, decoding succeeds with the text
  found at \<open>j\<close>.
\<close>

theorem scan_continues_after_rejected_match:
  assumes "maxTextLength \<le> int (length textOutput)"
    and "structural data i" "\<not> lengths_ok data maxTextLength i"
    and "i < j" "j + 6 < length data" "accepts data maxTextLength j"
    and "\<forall>k<j. \<not> accepts data maxTextLength k"
  shows "parseNDEFTextRecord data (int (length data)) textOutput maxTextLength =
           Inr (True, deliver textOutput (text_at data j))"
proof -
  have "find (accepts data maxTextLength) [0 ..< length data - 6] = Some j"
    using assms by (intro find_first) simp_all
  then show ?thesis using assms(1) by (simp add: parse_eq)
qed

theorem scan_continues_after_rejected_match_witness:
  "parseNDEFTextRecord tag_two_records (int (length tag_two_records)) blank_text 128 =
     Inr (True, deliver blank_text (text_at tag_two_records 5))"
proof (rule scan_continues_after_rejected_match [where i = 0])
  show "\<forall>k<5. \<not> accepts tag_two_records 128 k"
    unfolding all_less_set by code_simp
qed (simp, code_simp+)

theorem first_match_rejected_later_accepted:
  "structural tag_two_records 0 \<and> \<not> lengths_ok tag_two_records 128 0 \<and>
   parseNDEFTextRecord tag_two_records 24 blank_text 128 =
     Inr (True, ''AB'' @ replicate 126 NUL)"
  by code_simp

subsection \<open>Round trip\<close>

text \<open>
  Claim C3, amended. For a buffer laid out as padding, \<open>0xD1, 0x01, len, 0x54, status\<close>,
  language code, text, padding, with \<open>len = 1 + langcodelen + textlen\<close>, the low six
  bits of \<open>status\<close> equal to \<open>langcodelen\<close> and \<open>0 < textlen < maxTextLength\<close>,
  decoding succeeds and returns exactly the text, provided that the record starts
  below offset \<open>L - 6\<close> (language code, text and trailing padding together have at
  least two bytes) and that no offset inside the leading padding passes the decoder's
  checks.
\<close>

theorem decoder_round_trip:
  assumes data: "data = record_buffer pad1 len status lang txt pad2"
    and len: "unat len = 1 + length lang + length txt"
    and status: "unat (status AND 0x3F) = length lang"
    and nonempty: "0 < length txt" "int (length txt) < maxTextLength"
    and cap: "maxTextLength \<le> int (length textOutput)"
    and room: "2 \<le> length lang + length txt + length pad2"
    and first: "\<forall>k < length pad1. \<not> accepts data maxTextLength k"
  shows "parseNDEFTextRecord data (int (length data)) textOutput maxTextLength =
           Inr (True, deliver textOutput (map char_of_byte txt))"
proof -
  let ?j = "length pad1"
  have n: "data ! ?j = 0xD1" "data ! (?j + 1) = 0x01" "data ! (?j + 2) = len"
      "data ! (?j + 3) = 0x54" "data ! (?j + 4) = status"
    by (simp_all only: data record_buffer_nth)
  have ll: "lang_len data ?j = length lang"
    by (simp only: lang_len_def n status)
  have tl: "text_len data ?j = int (length txt)"
    unfolding text_len_def ll n len by simp
  have st: "structural data ?j"
    by (simp only: structural_def n)
  have ok: "lengths_ok data maxTextLength ?j"
    using nonempty by (simp add: lengths_ok_def ll tl) (simp add: data record_buffer_length)
  have ta: "text_at data ?j = map char_of_byte txt"
    by (simp add: text_at_def ll tl) (simp add: data record_buffer_drop)
  have "?j < length data - 6" using room by (simp add: data record_buffer_length)
  then have "find (accepts data maxTextLength) [0 ..< length data - 6] = Some ?j"
    using st ok first by (intro find_first) (simp_all add: accepts_def)
  then show ?thesis using cap by (simp add: parse_eq ta)
qed

theorem decoder_round_trip_witness:
  "parseNDEFTextRecord tag_museum (int (length tag_museum)) blank_text 128 =
     Inr (True, deliver blank_text (map char_of_byte [0x4D, 0x55, 0x53, 0x45, 0x55, 0x4D]))"
proof (rule decoder_round_trip [where ?pad1.0 = "[0x03, 0x0D]" and len = "0x09" and status = "0x02"
      and lang = "[0x65, 0x6E]" and ?pad2.0 = "[0xFE, 0, 0, 0, 0, 0, 0, 0, 0]"])
  show "\<forall>k<length [0x03, 0x0D :: byte]. \<not> accepts tag_museum 128 k"
    unfolding all_less_set by code_simp
qed (simp_all add: tag_museum_def record_buffer_def)

theorem round_trip_fails:
  "parseNDEFTextRecord (record_buffer [] 0x01 0x00 [] [] [0, 0, 0]) 8 blank_text 128 =
     Inr (False, blank_text) \<and>
   parseNDEFTextRecord (record_buffer [0, 0] 0x02 0x00 [] [0x41] []) 8 blank_text 128 =
     Inr (False, blank_text) \<and>
   parseNDEFTextRecord
     (record_buffer [0xD1, 0x01, 0x02, 0x54, 0x00, 0x5A] 0x02 0x00 [] [0x41] [0, 0]) 14
     blank_text 128 = Inr (True, deliver blank_text (map char_of_byte [0x5A])) \<and>
   deliver blank_text (map char_of_byte [0x5A]) \<noteq> deliver blank_text (map char_of_byte [0x41])"
  by code_simp


section \<open>Rounding\<close>

text \<open>
  The exponent found by \<open>ilog2\<close> brackets its argument; rounding to nearest is monotone,
  keeps integers, and moves a value by at most half a unit in the last place.
\<close>

lemma ilog2_bounds:
  assumes "0 < x"
  shows "power_int 2 (ilog2 x) \<le> x" "x < power_int 2 (ilog2 x + 1)"
proof -
  obtain p q where pq: "quotient_of x = (p, q)" by (cases "quotient_of x")
  have q: "0 < q" using pq quotient_of_denom_pos by blast
  have x: "x = of_int p / of_int q" using pq by (rule quotient_of_div)
  have p: "0 < p" using assms q x by (simp add: zero_less_divide_iff)
  let ?a = "bitlen p" and ?b = "bitlen q"
  note bp = bitlen_bounds [OF p] and bq = bitlen_bounds [OF q]
  have apos: "0 < ?a" using p bitlen_eq_zero_iff [of p] bitlen_nonneg [of p] by linarith
  have bpos: "0 < ?b" using q bitlen_eq_zero_iff [of q] bitlen_nonneg [of q] by linarith
  let ?e = "?a - ?b"
  have pn: "0 \<le> m \<Longrightarrow> power_int (2::rat) m = 2 ^ nat m" for m
    by (simp add: power_int_def)
  have P1: "of_int p < (2::rat) ^ nat ?a"
    using bp by (metis of_int_less_iff of_int_numeral of_int_power)
  have P2: "(2::rat) ^ nat (?a - 1) \<le> of_int p"
    using bp by (metis of_int_le_iff of_int_numeral of_int_power)
  have Q1: "of_int q < (2::rat) ^ nat ?b"
    using bq by (metis of_int_less_iff of_int_numeral of_int_power)
  have Q2: "(2::rat) ^ nat (?b - 1) \<le> of_int q"
    using bq by (metis of_int_le_iff of_int_numeral of_int_power)
  have up: "x < power_int 2 (?e + 1)"
  proof -
    have "power_int (2::rat) (?e + 1) = power_int 2 ?a / power_int 2 (?b - 1)"
      using power_int_diff [of "2::rat" ?a "?b - 1"] by (simp add: algebra_simps)
    also have "\<dots> = 2 ^ nat ?a / 2 ^ nat (?b - 1)" using apos bpos by (simp add: pn)
    finally have "power_int (2::rat) (?e + 1) = 2 ^ nat ?a / 2 ^ nat (?b - 1)" .
    moreover have "of_int p / of_int q < (2::rat) ^ nat ?a / 2 ^ nat (?b - 1)"
      using P1 Q2 p by (intro frac_less) simp_all
    ultimately show ?thesis using x by simp
  qed
  have lo: "power_int 2 (?e - 1) \<le> x"
  proof -
    have "power_int (2::rat) (?e - 1) = power_int 2 (?a - 1) / power_int 2 ?b"
      using power_int_diff [of "2::rat" "?a - 1" ?b] by (simp add: algebra_simps)
    also have "\<dots> = 2 ^ nat (?a - 1) / 2 ^ nat ?b" using apos bpos by (simp add: pn)
    finally have "power_int (2::rat) (?e - 1) = 2 ^ nat (?a - 1) / 2 ^ nat ?b" .
    moreover have "(2::rat) ^ nat (?a - 1) / 2 ^ nat ?b \<le> of_int p / of_int q"
      using P2 Q1 q p by (intro frac_le) simp_all
    ultimately show ?thesis using x by simp
  qed
  have il: "ilog2 x = (if power_int 2 ?e \<le> x then ?e else ?e - 1)"
    by (simp add: ilog2_def pq Let_def)
  show "power_int 2 (ilog2 x) \<le> x" using lo by (simp add: il)
  show "x < power_int 2 (ilog2 x + 1)" using up by (auto simp: il not_le)
qed

lemma ilog2_mono:
  assumes "0 < x" "x \<le> y"
  shows "ilog2 x \<le> ilog2 y"
proof -
  have "power_int (2::rat) (ilog2 x) < power_int 2 (ilog2 y + 1)"
    using ilog2_bounds(1) [OF assms(1)] ilog2_bounds(2) [of y] assms by linarith
  then have "\<not> ilog2 y + 1 \<le> ilog2 x"
    using power_int_increasing [of "ilog2 y + 1" "ilog2 x" "2::rat"] by auto
  then show ?thesis by simp
qed

lemma round_even_mono: "x \<le> y \<Longrightarrow> round_even x \<le> round_even y"
proof -
  assume xy: "x \<le> y"
  have f: "\<lfloor>x\<rfloor> \<le> \<lfloor>y\<rfloor>" using xy by (rule floor_mono)
  show ?thesis
  proof (cases "\<lfloor>x\<rfloor> = \<lfloor>y\<rfloor>")
    case True
    then show ?thesis using xy by (auto simp: round_even_def Let_def)
  next
    case False
    then have "\<lfloor>x\<rfloor> + 1 \<le> \<lfloor>y\<rfloor>" using f by simp
    moreover have "round_even x \<le> \<lfloor>x\<rfloor> + 1" by (simp add: round_even_def Let_def)
    moreover have "\<lfloor>y\<rfloor> \<le> round_even y" by (simp add: round_even_def Let_def)
    ultimately show ?thesis by linarith
  qed
qed

lemma round_even_of_int: "round_even (of_int n) = n"
  by (simp add: round_even_def)

lemma fround_range:
  assumes x: "0 < x" and p: "0 < p"
  shows "power_int 2 (ilog2 x) \<le> fround p x" "fround p x \<le> power_int 2 (ilog2 x + 1)"
proof -
  let ?e = "ilog2 x"
  let ?u = "power_int (2::rat) (?e - int p + 1)"
  have u: "0 < ?u" by (simp add: zero_less_power_int)
  have fr: "fround p x = of_int (round_even (x / ?u)) * ?u"
    using x by (simp add: fround_def Let_def)
  have lo: "power_int 2 ?e = of_int (2 ^ (p - 1)) * ?u"
  proof -
    have "power_int (2::rat) ?e = power_int 2 (int (p - 1)) * ?u"
      using p by (simp flip: power_int_add add: of_nat_diff)
    then show ?thesis by simp
  qed
  have hi: "power_int 2 (?e + 1) = of_int (2 ^ p) * ?u"
  proof -
    have "power_int (2::rat) (int p + (?e - int p + 1)) = power_int 2 (int p) * ?u"
      by (rule power_int_add) simp
    moreover have "int p + (?e - int p + 1) = ?e + 1" by simp
    ultimately show ?thesis by simp
  qed
  have "of_int (2 ^ (p - 1)) \<le> x / ?u"
    using ilog2_bounds(1) [OF x] u by (simp add: lo pos_le_divide_eq)
  then have "round_even (of_int (2 ^ (p - 1))) \<le> round_even (x / ?u)"
    by (rule round_even_mono)
  then have "(of_int (2 ^ (p - 1)) :: rat) \<le> of_int (round_even (x / ?u))"
    unfolding round_even_of_int by (simp only: of_int_le_iff)
  then show "power_int 2 ?e \<le> fround p x"
    unfolding lo fr using u by (simp only: mult_le_cancel_right_pos)
  have "x / ?u \<le> of_int (2 ^ p)"
    using ilog2_bounds(2) [OF x] u by (simp add: hi pos_divide_le_eq)
  then have "round_even (x / ?u) \<le> round_even (of_int (2 ^ p))"
    by (rule round_even_mono)
  then have "(of_int (round_even (x / ?u)) :: rat) \<le> of_int (2 ^ p)"
    unfolding round_even_of_int by (simp only: of_int_le_iff)
  then show "fround p x \<le> power_int 2 (?e + 1)"
    unfolding hi fr using u by (simp only: mult_le_cancel_right_pos)
qed

lemma fround_zero [simp]: "fround p 0 = 0"
  by (simp add: fround_def)

lemma fround_pos:
  assumes "0 < x" "0 < p"
  shows "0 < fround p x"
proof -
  have "(0::rat) < power_int 2 (ilog2 x)" by simp
  with fround_range(1) [OF assms] show ?thesis by linarith
qed

lemma fround_mono:
  assumes "0 \<le> x" "x \<le> y" "0 < p"
  shows "fround p x \<le> fround p y"
proof (cases "x = 0")
  case True
  show ?thesis
  proof (cases "y = 0")
    case True with \<open>x = 0\<close> show ?thesis by simp
  next
    case False
    with assms True have "0 < y" by simp
    from fround_pos [OF this assms(3)] True show ?thesis by simp
  qed
next
  case False
  with assms have x: "0 < x" and y: "0 < y" by simp_all
  have e: "ilog2 x \<le> ilog2 y" using x assms(2) by (rule ilog2_mono)
  show ?thesis
  proof (cases "ilog2 x = ilog2 y")
    case True
    let ?u = "power_int (2::rat) (ilog2 y - int p + 1)"
    have u: "0 < ?u" by (simp add: zero_less_power_int)
    have "x / ?u \<le> y / ?u" using assms(2) u by (simp add: divide_right_mono)
    then have "round_even (x / ?u) \<le> round_even (y / ?u)" by (rule round_even_mono)
    then have "(of_int (round_even (x / ?u)) :: rat) * ?u \<le> of_int (round_even (y / ?u)) * ?u"
      using u by (simp only: mult_le_cancel_right_pos of_int_le_iff)
    then show ?thesis using x y True by (simp add: fround_def Let_def)
  next
    case False
    with e have "ilog2 x + 1 \<le> ilog2 y" by simp
    then have "power_int (2::rat) (ilog2 x + 1) \<le> power_int 2 (ilog2 y)"
      by (intro power_int_increasing) simp_all
    with fround_range(2) [OF x assms(3)] fround_range(1) [OF y assms(3)]
    show ?thesis by linarith
  qed
qed

lemma to_float_mono: "0 \<le> x \<Longrightarrow> x \<le> y \<Longrightarrow> to_float x \<le> to_float y"
  unfolding to_float_def by (rule fround_mono) simp_all

lemma to_double_mono: "0 \<le> x \<Longrightarrow> x \<le> y \<Longrightarrow> to_double x \<le> to_double y"
  unfolding to_double_def by (rule fround_mono) simp_all

lemma to_double_nonneg: "0 \<le> x \<Longrightarrow> 0 \<le> to_double x"
  using to_double_mono [of 0 x] by (simp add: to_double_def)

lemma to_float_nonneg: "0 \<le> x \<Longrightarrow> 0 \<le> to_float x"
  using to_float_mono [of 0 x] by (simp add: to_float_def)

lemma round_even_error: "\<bar>of_int (round_even y) - y\<bar> \<le> (1 / 2 :: rat)"
proof -
  define r where "r = y - of_int \<lfloor>y\<rfloor>"
  have r: "0 \<le> r" "r < 1" unfolding r_def by linarith+
  have re: "round_even y = (if r < 1 / 2 then \<lfloor>y\<rfloor> else if 1 / 2 < r then \<lfloor>y\<rfloor> + 1
                            else if even \<lfloor>y\<rfloor> then \<lfloor>y\<rfloor> else \<lfloor>y\<rfloor> + 1)"
    by (simp add: round_even_def Let_def r_def)
  have c: "round_even y = \<lfloor>y\<rfloor> \<and> r \<le> 1 / 2 \<or> round_even y = \<lfloor>y\<rfloor> + 1 \<and> 1 / 2 \<le> r"
    unfolding re by (cases "r < 1 / 2"; cases "1 / 2 < r"; cases "even \<lfloor>y\<rfloor>") simp_all
  have y: "y = of_int \<lfloor>y\<rfloor> + r" by (simp add: r_def)
  from c show ?thesis
  proof
    assume "round_even y = \<lfloor>y\<rfloor> \<and> r \<le> 1 / 2"
    then have "of_int (round_even y) - y = - r" "r \<le> 1 / 2" using y by simp_all
    then show ?thesis using r by simp
  next
    assume "round_even y = \<lfloor>y\<rfloor> + 1 \<and> 1 / 2 \<le> r"
    then have "of_int (round_even y) - y = 1 - r" "1 / 2 \<le> r" using y by simp_all
    then show ?thesis using r by simp
  qed
qed

lemma fround_error:
  assumes x: "0 \<le> x" and p: "0 < p"
  shows "\<bar>fround p x - x\<bar> \<le> x / 2 ^ p"
proof (cases "x = 0")
  case True
  then show ?thesis by simp
next
  case False
  with x have x: "0 < x" by simp
  let ?e = "ilog2 x"
  let ?u = "power_int (2::rat) (?e - int p + 1)"
  have u: "0 < ?u" by simp
  have fr: "fround p x = of_int (round_even (x / ?u)) * ?u"
    using x by (simp add: fround_def Let_def)
  have "fround p x - x = (of_int (round_even (x / ?u)) - x / ?u) * ?u"
    using u by (simp add: fr algebra_simps)
  then have "\<bar>fround p x - x\<bar> = \<bar>of_int (round_even (x / ?u)) - x / ?u\<bar> * ?u"
    using u by (simp add: abs_mult)
  also have "\<dots> \<le> (1 / 2) * ?u"
    using round_even_error [of "x / ?u"] u by (intro mult_right_mono) simp_all
  also have "(1 / 2) * ?u = power_int 2 ?e / 2 ^ p"
  proof -
    have a: "?u = power_int 2 (?e + (1 - int p))"
      by (rule arg_cong [where f = "power_int 2"]) simp
    have b: "power_int (2::rat) (?e + (1 - int p)) = power_int 2 ?e * power_int 2 (1 - int p)"
      by (rule power_int_add) simp
    have c: "power_int (2::rat) (1 - int p) = 2 / 2 ^ p"
      using power_int_diff [of "2::rat" 1 "int p"] by simp
    show ?thesis unfolding a b c by simp
  qed
  also have "\<dots> \<le> x / 2 ^ p"
    using ilog2_bounds(1) [OF x] by (simp add: divide_right_mono)
  finally show ?thesis .
qed

lemma float_of_double_error:
  assumes "0 \<le> x"
  shows "\<bar>to_float (to_double x) - x\<bar> \<le> x / 2 ^ 23"
proof -
  let ?y = "to_double x"
  have y0: "0 \<le> ?y" using assms by (rule to_double_nonneg)
  have d: "\<bar>?y - x\<bar> \<le> x / 2 ^ 53"
    unfolding to_double_def using assms by (rule fround_error) simp
  have f: "\<bar>to_float ?y - ?y\<bar> \<le> ?y / 2 ^ 24"
    unfolding to_float_def using y0 by (rule fround_error) simp
  have "?y \<le> x + x / 2 ^ 53" using d by linarith
  then have "?y / 2 ^ 24 \<le> (x + x / 2 ^ 53) / 2 ^ 24" by (simp add: divide_right_mono)
  with d f have "\<bar>to_float ?y - x\<bar> \<le> x / 2 ^ 53 + (x + x / 2 ^ 53) / 2 ^ 24" by linarith
  also have "\<dots> \<le> x / 2 ^ 23" using assms by simp
  finally show ?thesis .
qed

subsection \<open>The constants of the program\<close>

lemma volumeStep_val: "volumeStep = 13421773 / 134217728"
  by code_simp

lemma minVolume_val: "minVolume = 13421773 / 134217728"
  by code_simp

lemma maxVolume_val: "maxVolume = 1"
  by code_simp

lemma float_lit_half: "float_lit (1 / 2) = 1 / 2"
  by code_simp

lemma to_float_100: "to_float 100 = 100"
  by code_simp

lemma to_float_minVolume: "to_float (13421773 / 134217728) = 13421773 / 134217728"
  by code_simp

lemma to_float_1: "to_float 1 = 1"
  by code_simp

lemma to_float_to_double_1: "to_float (to_double 1) = 1"
  by code_simp

lemma to_float_to_double_tenth: "to_float (to_double (1 / 10)) = 13421773 / 134217728"
  by code_simp

lemma to_float_to_double_0: "to_float (to_double 0) = 0"
  by (simp add: to_float_def to_double_def)

lemma half_times_100: "word_of_int (trunc_int (float_mul (1 / 2) (to_float 100))) = (50 :: byte)"
  by code_simp

section \<open>Volume\<close>

lemma currentVolume_play [simp]: "currentVolume (play_if_exists e f s) = currentVolume s"
  by (simp add: play_if_exists_def)

lemma eeprom_play [simp]:
  "eeprom (play_if_exists e f s) = eeprom s"
  "eeprom_writes (play_if_exists e f s) = eeprom_writes s"
  by (simp_all add: play_if_exists_def)

lemma save_fields [simp]:
  "currentVolume (saveVolumeToEEPROM s) = currentVolume s"
  "eeprom_writes (saveVolumeToEEPROM s) =
     eeprom_writes s @ [(EEPROM_VOLUME_ADDRESS,
        word_of_int (trunc_int (float_mul (currentVolume s) (to_float 100))))]"
  "played (saveVolumeToEEPROM s) = played s"
  by (simp_all add: saveVolumeToEEPROM_def EEPROM_write_def Let_def)

lemma volumeUp_volume:
  "currentVolume (volumeUp e s) =
     (if currentVolume s \<ge> maxVolume then currentVolume s
      else min maxVolume (float_add (currentVolume s) volumeStep))"
  by (simp add: volumeUp_def Let_def min_def)

lemma volumeDown_volume:
  "currentVolume (volumeDown e s) =
     (if currentVolume s \<le> minVolume then currentVolume s
      else max minVolume (float_sub (currentVolume s) volumeStep))"
  by (simp add: volumeDown_def Let_def max_def)

lemma volumeUp_in_range:
  assumes "minVolume \<le> currentVolume s" "currentVolume s \<le> maxVolume"
  shows "minVolume \<le> currentVolume (volumeUp e s) \<and> currentVolume (volumeUp e s) \<le> maxVolume"
proof -
  have "0 \<le> minVolume" by (simp add: minVolume_val)
  moreover have "minVolume \<le> currentVolume s + volumeStep"
    using assms by (simp add: volumeStep_val)
  ultimately have "to_float minVolume \<le> to_float (currentVolume s + volumeStep)"
    by (rule to_float_mono)
  then have "minVolume \<le> float_add (currentVolume s) volumeStep"
    by (simp add: float_add_def minVolume_val to_float_minVolume)
  moreover have "minVolume \<le> maxVolume" by (simp add: minVolume_val maxVolume_val)
  ultimately show ?thesis using assms by (simp add: volumeUp_volume)
qed

lemma volumeDown_in_range:
  assumes "minVolume \<le> currentVolume s" "currentVolume s \<le> maxVolume"
  shows "minVolume \<le> currentVolume (volumeDown e s) \<and> currentVolume (volumeDown e s) \<le> maxVolume"
proof (cases "currentVolume s \<le> minVolume")
  case True
  then show ?thesis using assms by (simp add: volumeDown_volume)
next
  case False
  then have "0 \<le> currentVolume s - volumeStep"
    by (simp add: volumeStep_val minVolume_val)
  moreover have "currentVolume s - volumeStep \<le> 1"
    using assms by (simp add: volumeStep_val maxVolume_val)
  ultimately have "to_float (currentVolume s - volumeStep) \<le> to_float 1"
    by (rule to_float_mono)
  then have "float_sub (currentVolume s) volumeStep \<le> maxVolume"
    by (simp add: float_sub_def maxVolume_val to_float_1)
  moreover have "minVolume \<le> maxVolume" by (simp add: minVolume_val maxVolume_val)
  ultimately show ?thesis using False by (simp add: volumeDown_volume)
qed

lemma load_volume:
  "currentVolume (loadVolumeFromEEPROM s) =
     (if uint (eeprom s EEPROM_VOLUME_ADDRESS) \<le> 100
      then to_float (double_div (of_int (uint (eeprom s EEPROM_VOLUME_ADDRESS))) 100)
      else 1 / 2)"
  by (simp add: loadVolumeFromEEPROM_def EEPROM_read_def Let_def float_lit_half)

lemma load_in_range:
  "0 \<le> currentVolume (loadVolumeFromEEPROM s) \<and>
   currentVolume (loadVolumeFromEEPROM s) \<le> maxVolume \<and>
   (10 \<le> uint (eeprom s EEPROM_VOLUME_ADDRESS) \<longrightarrow>
      minVolume \<le> currentVolume (loadVolumeFromEEPROM s))"
proof (cases "uint (eeprom s EEPROM_VOLUME_ADDRESS) \<le> 100")
  case False
  then show ?thesis by (simp add: load_volume minVolume_val maxVolume_val)
next
  case True
  let ?b = "uint (eeprom s EEPROM_VOLUME_ADDRESS)"
  let ?x = "(of_int ?b :: rat) / 100"
  have x0: "0 \<le> ?x" by (simp del: of_int_uint)
  have x1: "?x \<le> 1" using True by (simp del: of_int_uint)
  have "0 \<le> to_float (to_double ?x)"
    using x0 by (intro to_float_nonneg to_double_nonneg)
  moreover have "to_float (to_double ?x) \<le> to_float (to_double 1)"
    using x0 x1 by (intro to_float_mono to_double_mono to_double_nonneg)
  moreover have "to_float (to_double (1 / 10)) \<le> to_float (to_double ?x)" if "10 \<le> ?b"
  proof -
    have "(1::rat) / 10 \<le> ?x" using that by (simp del: of_int_uint)
    then show ?thesis by (intro to_float_mono to_double_mono to_double_nonneg) simp_all
  qed
  ultimately show ?thesis
    using True
    by (simp add: load_volume double_div_def maxVolume_val minVolume_val
        to_float_to_double_1 to_float_to_double_tenth del: of_int_uint)
qed

lemma float_add_gt:
  assumes "0 \<le> x" "x < 1"
  shows "x < float_add x volumeStep"
proof -
  let ?z = "x + volumeStep"
  have z: "0 \<le> ?z" using assms by (simp add: volumeStep_val)
  have "\<bar>fround 24 ?z - ?z\<bar> \<le> ?z / 2 ^ 24" using z by (rule fround_error) simp
  then have "?z - ?z / 2 ^ 24 \<le> to_float ?z" unfolding to_float_def by linarith
  moreover have "x < ?z - ?z / 2 ^ 24" using assms by (simp add: volumeStep_val)
  ultimately show ?thesis unfolding float_add_def by linarith
qed

lemma float_sub_lt:
  assumes "minVolume < x" "x \<le> 1"
  shows "float_sub x volumeStep < x"
proof -
  let ?z = "x - volumeStep"
  have z: "0 \<le> ?z" using assms by (simp add: volumeStep_val minVolume_val)
  have "\<bar>fround 24 ?z - ?z\<bar> \<le> ?z / 2 ^ 24" using z by (rule fround_error) simp
  then have "to_float ?z \<le> ?z + ?z / 2 ^ 24" unfolding to_float_def by linarith
  moreover have "?z + ?z / 2 ^ 24 < x" using assms by (simp add: volumeStep_val)
  ultimately show ?thesis unfolding float_sub_def by linarith
qed

lemma volumeUp_writes:
  "eeprom_writes (volumeUp e s) =
     (if currentVolume s \<ge> maxVolume then eeprom_writes s
      else eeprom_writes s @ [(EEPROM_VOLUME_ADDRESS,
             word_of_int (trunc_int (float_mul (currentVolume (volumeUp e s)) (to_float 100))))])"
  by (simp add: volumeUp_def Let_def)

lemma volumeDown_writes:
  "eeprom_writes (volumeDown e s) =
     (if currentVolume s \<le> minVolume then eeprom_writes s
      else eeprom_writes s @ [(EEPROM_VOLUME_ADDRESS,
             word_of_int (trunc_int (float_mul (currentVolume (volumeDown e s)) (to_float 100))))])"
  by (simp add: volumeDown_def Let_def)

lemma volume_at_bound_eeprom:
  "currentVolume s \<ge> maxVolume \<Longrightarrow> eeprom (volumeUp e s) = eeprom s"
  "currentVolume s \<le> minVolume \<Longrightarrow> eeprom (volumeDown e s) = eeprom s"
  by (simp_all add: volumeUp_def volumeDown_def)

lemma boot_eeprom [simp]: "eeprom (boot_state b) a = b"
  by (simp add: boot_state_def)

lemma boot_writes [simp]: "eeprom_writes (boot_state b) = []"
  by (simp add: boot_state_def)

lemma load_boot_100: "currentVolume (loadVolumeFromEEPROM (boot_state 100)) = 1"
  by (simp add: load_volume double_div_def to_float_to_double_1)

lemma load_boot_0: "currentVolume (loadVolumeFromEEPROM (boot_state 0)) = 0"
  by (simp add: load_volume double_div_def to_float_to_double_0)

lemma load_boot_50: "currentVolume (loadVolumeFromEEPROM (boot_state 50)) = 1 / 2"
  using float_lit_half by (simp add: load_volume double_div_def float_lit_def)

lemma first_down: "float_sub 1 (13421773 / 134217728) = 7549747 / 8388608"
  by code_simp

lemma second_down: "float_sub (7549747 / 8388608) (13421773 / 134217728) = 3355443 / 4194304"
  by code_simp

lemma second_down_percent:
  "trunc_int (float_mul (3355443 / 4194304) (to_float 100)) = 79"
  by code_simp

lemma volumeDown_eeprom:
  "eeprom (volumeDown e s) EEPROM_VOLUME_ADDRESS =
     (if currentVolume s \<le> minVolume then eeprom s EEPROM_VOLUME_ADDRESS
      else word_of_int (trunc_int (float_mul (currentVolume (volumeDown e s)) (to_float 100))))"
  by (simp add: volumeDown_def Let_def saveVolumeToEEPROM_def EEPROM_write_def)

subsection \<open>The volume range\<close>

lemma volumeUp_from_zero:
  assumes "0 \<le> currentVolume s" "currentVolume s \<le> maxVolume"
  shows "minVolume \<le> currentVolume (volumeUp e s) \<and> currentVolume (volumeUp e s) \<le> maxVolume"
proof (cases "maxVolume \<le> currentVolume s")
  case True
  then show ?thesis using assms by (simp add: volumeUp_volume minVolume_val maxVolume_val)
next
  case False
  have "0 \<le> minVolume" by (simp add: minVolume_val)
  moreover have "minVolume \<le> currentVolume s + volumeStep"
    using assms by (simp add: volumeStep_val minVolume_val)
  ultimately have "to_float minVolume \<le> to_float (currentVolume s + volumeStep)"
    by (rule to_float_mono)
  then have "minVolume \<le> float_add (currentVolume s) volumeStep"
    by (simp add: float_add_def minVolume_val to_float_minVolume)
  moreover have "minVolume \<le> maxVolume" by (simp add: minVolume_val maxVolume_val)
  ultimately show ?thesis using False by (simp add: volumeUp_volume)
qed

lemma volumeDown_from_zero:
  assumes "0 \<le> currentVolume s" "currentVolume s \<le> maxVolume"
  shows "0 \<le> currentVolume (volumeDown e s) \<and> currentVolume (volumeDown e s) \<le> maxVolume \<and>
         (minVolume \<le> currentVolume s \<longrightarrow> minVolume \<le> currentVolume (volumeDown e s))"
proof (cases "currentVolume s \<le> minVolume")
  case True
  then show ?thesis using assms by (simp add: volumeDown_volume)
next
  case False
  then have "minVolume \<le> currentVolume s" by simp
  from volumeDown_in_range [OF this assms(2), of e]
  show ?thesis using False by (simp add: minVolume_val)
qed

lemma nine_percent: "to_float (to_double (9 / 100)) < 13421773 / 134217728"
  by code_simp

lemma load_below_min:
  assumes "uint (eeprom s EEPROM_VOLUME_ADDRESS) < 10"
  shows "currentVolume (loadVolumeFromEEPROM s) < minVolume"
proof -
  let ?b = "uint (eeprom s EEPROM_VOLUME_ADDRESS)"
  let ?x = "(of_int ?b :: rat) / 100"
  have x0: "0 \<le> ?x" by (simp del: of_int_uint)
  have "?b \<le> 9" using assms by simp
  then have "(of_int ?b :: rat) \<le> 9" by (simp only: of_int_le_iff [of ?b 9, where ?'a = rat, simplified])
  then have x9: "?x \<le> 9 / 100" by (simp del: of_int_uint)
  have "to_float (to_double ?x) \<le> to_float (to_double (9 / 100))"
    using x0 x9 by (intro to_float_mono to_double_mono to_double_nonneg)
  with nine_percent show ?thesis
    using assms by (simp add: load_volume double_div_def minVolume_val del: of_int_uint)
qed

lemma loop_volume:
  assumes "loop e s = Inr s'"
  shows "currentVolume s' = currentVolume s \<or> currentVolume s' = currentVolume (volumeUp e s) \<or>
         currentVolume s' = currentVolume (volumeDown e s)"
  using assms
  by (auto simp: loop_def handle_text_def searchAndPlayWAV_def playNoMatch_def
      split: option.splits prod.splits sum.splits bool.splits if_splits)

lemma reachable_range:
  assumes "reachable s0 s"
  shows "0 \<le> currentVolume s \<and> currentVolume s \<le> maxVolume \<and>
         (10 \<le> uint (eeprom s0 EEPROM_VOLUME_ADDRESS) \<longrightarrow> minVolume \<le> currentVolume s)"
  using assms
proof (induction rule: reachable.induct)
  case (init s0)
  show ?case using load_in_range [of s0] by simp
next
  case (up s0 s e)
  then show ?case using volumeUp_from_zero [of s e] by (simp add: minVolume_val)
next
  case (down s0 s e)
  then show ?case using volumeDown_from_zero [of s e] by blast
next
  case (cycle s0 s e s')
  from loop_volume [OF cycle(2)] cycle(3) volumeUp_from_zero [of s e] volumeDown_from_zero [of s e]
  show ?case by (auto simp: minVolume_val)
qed


text \<open>
  Claim C4, amended. In every reachable state after initialisation from persistent
  storage the volume lies in \<open>[0, maxVolume]\<close>, and in \<open>[minVolume, maxVolume]\<close>
  when the byte stored at start-up was at least 10 (a byte above 100 counts: it is
  replaced by the default). Every \<open>volumeUp\<close> and \<open>volumeDown\<close> started in
  \<open>[0, maxVolume]\<close> ends in \<open>[0, maxVolume]\<close>, \<open>volumeUp\<close> even in
  \<open>[minVolume, maxVolume]\<close>, and \<open>volumeDown\<close> started at or above \<open>minVolume\<close>
  stays at or above it. A stored byte below 10 loads a volume below \<open>minVolume\<close>.
\<close>

theorem volume_range:
  "(reachable s0 s \<longrightarrow>
      0 \<le> currentVolume s \<and> currentVolume s \<le> maxVolume \<and>
      (10 \<le> uint (eeprom s0 EEPROM_VOLUME_ADDRESS) \<longrightarrow> minVolume \<le> currentVolume s)) \<and>
   (0 \<le> currentVolume s \<and> currentVolume s \<le> maxVolume \<longrightarrow>
      minVolume \<le> currentVolume (volumeUp e s) \<and> currentVolume (volumeUp e s) \<le> maxVolume \<and>
      0 \<le> currentVolume (volumeDown e s) \<and> currentVolume (volumeDown e s) \<le> maxVolume \<and>
      (minVolume \<le> currentVolume s \<longrightarrow> minVolume \<le> currentVolume (volumeDown e s))) \<and>
   (uint (eeprom s0 EEPROM_VOLUME_ADDRESS) < 10 \<longrightarrow>
      currentVolume (loadVolumeFromEEPROM s0) < minVolume)"
  using reachable_range [of s0 s] volumeUp_from_zero [of s e] volumeDown_from_zero [of s e]
    load_below_min [of s0]
  by blast

theorem volume_range_witness:
  "reachable (boot_state 50) (volumeDown no_files (loadVolumeFromEEPROM (boot_state 50))) \<and>
   10 \<le> uint (eeprom (boot_state 50) EEPROM_VOLUME_ADDRESS) \<and>
   minVolume \<le> currentVolume (volumeDown no_files (loadVolumeFromEEPROM (boot_state 50))) \<and>
   currentVolume (volumeDown no_files (loadVolumeFromEEPROM (boot_state 50))) \<le> maxVolume \<and>
   minVolume \<le> currentVolume (volumeUp no_files
      (volumeDown no_files (loadVolumeFromEEPROM (boot_state 50))))"
proof -
  have r: "reachable (boot_state 50) (volumeDown no_files (loadVolumeFromEEPROM (boot_state 50)))"
    by (intro reachable.down reachable.init)
  have a: "10 \<le> uint (eeprom (boot_state 50) EEPROM_VOLUME_ADDRESS)"
    by simp
  show ?thesis
    using volume_range [of "boot_state 50"
        "volumeDown no_files (loadVolumeFromEEPROM (boot_state 50))" no_files] r a
    by blast
qed

text \<open>
  A stored byte 0 is accepted by the range check of line 58 and gives the volume 0,
  below \<open>minVolume\<close>; \<open>volumeDown\<close> then leaves it there.
\<close>

theorem stored_byte_below_10_breaks_range:
  "currentVolume (loadVolumeFromEEPROM (boot_state 0)) < minVolume \<and>
   currentVolume (volumeDown no_files (loadVolumeFromEEPROM (boot_state 0))) < minVolume"
  by (simp add: volumeDown_volume load_boot_0 minVolume_val)

subsection \<open>What is written to the EEPROM\<close>

text \<open>
  Claim C5. A call that changes the volume to \<open>v\<close> should persist \<open>round (v * 100)\<close>.
  The program persists \<open>(int)(v * 100)\<close>, the truncation of the single precision
  product. Starting from the stored byte 100 (volume 1.0), the first \<open>volumeDown\<close>
  gives 0.9 in single precision, the second gives 3355443 / 4194304, just below 0.8:
  the byte written is 79, while \<open>v * 100\<close> rounds to 80.
\<close>

theorem persisted_value_is_truncated:
  "currentVolume (volumeDown no_files (loadVolumeFromEEPROM (boot_state 100))) = 7549747 / 8388608 \<and>
   currentVolume (volumeDown no_files (volumeDown no_files (loadVolumeFromEEPROM (boot_state 100))))
     = 3355443 / 4194304 \<and>
   eeprom (volumeDown no_files (volumeDown no_files (loadVolumeFromEEPROM (boot_state 100))))
     EEPROM_VOLUME_ADDRESS = 79 \<and>
   round (currentVolume
     (volumeDown no_files (volumeDown no_files (loadVolumeFromEEPROM (boot_state 100)))) * 100) = 80"
proof -
  let ?s = "loadVolumeFromEEPROM (boot_state 100)"
  have d1: "currentVolume (volumeDown no_files ?s) = 7549747 / 8388608"
    by (simp add: volumeDown_volume load_boot_100 minVolume_val volumeStep_val first_down)
  have d2: "currentVolume (volumeDown no_files (volumeDown no_files ?s)) = 3355443 / 4194304"
    by (simp add: volumeDown_volume [of no_files "volumeDown no_files ?s"] d1 minVolume_val
        volumeStep_val second_down)
  have w: "eeprom (volumeDown no_files (volumeDown no_files ?s)) EEPROM_VOLUME_ADDRESS = 79"
    by (simp add: volumeDown_eeprom [of no_files "volumeDown no_files ?s"] d1 d2 minVolume_val
        second_down_percent)
  have r: "round ((3355443 / 4194304 :: rat) * 100) = 80"
    unfolding round_def by (rule floor_unique) simp_all
  show ?thesis by (simp only: d1 d2 w r simp_thms)
qed

subsection \<open>One step, one write\<close>

text \<open>
  Claim C7. For every call of \<open>volumeUp\<close> or \<open>volumeDown\<close>: when the volume is
  already at the targeted bound (the program's test: \<open>currentVolume >= maxVolume\<close>,
  respectively \<open>currentVolume <= minVolume\<close>), the volume and the EEPROM are left as
  they are and nothing is written; otherwise the volume becomes the single precision
  sum or difference with \<open>volumeStep\<close>, clamped to the bound, which differs from the old
  volume whenever that lay in \<open>[0, maxVolume]\<close>, and exactly one write to the volume
  address is added.
\<close>

theorem volume_step_effects:
  "(currentVolume s \<ge> maxVolume \<longrightarrow>
      currentVolume (volumeUp e s) = currentVolume s \<and>
      eeprom_writes (volumeUp e s) = eeprom_writes s \<and> eeprom (volumeUp e s) = eeprom s) \<and>
   (currentVolume s < maxVolume \<longrightarrow>
      currentVolume (volumeUp e s) = min maxVolume (float_add (currentVolume s) volumeStep) \<and>
      (0 \<le> currentVolume s \<longrightarrow> currentVolume s < currentVolume (volumeUp e s)) \<and>
      (\<exists>v. eeprom_writes (volumeUp e s) = eeprom_writes s @ [(EEPROM_VOLUME_ADDRESS, v)])) \<and>
   (currentVolume s \<le> minVolume \<longrightarrow>
      currentVolume (volumeDown e s) = currentVolume s \<and>
      eeprom_writes (volumeDown e s) = eeprom_writes s \<and> eeprom (volumeDown e s) = eeprom s) \<and>
   (minVolume < currentVolume s \<longrightarrow>
      currentVolume (volumeDown e s) = max minVolume (float_sub (currentVolume s) volumeStep) \<and>
      (currentVolume s \<le> maxVolume \<longrightarrow> currentVolume (volumeDown e s) < currentVolume s) \<and>
      (\<exists>v. eeprom_writes (volumeDown e s) = eeprom_writes s @ [(EEPROM_VOLUME_ADDRESS, v)]))"
proof (intro conjI impI)
  assume a: "currentVolume s < maxVolume" and b: "0 \<le> currentVolume s"
  then have "currentVolume s < float_add (currentVolume s) volumeStep"
    by (intro float_add_gt) (simp_all add: maxVolume_val)
  then show "currentVolume s < currentVolume (volumeUp e s)"
    using a by (simp add: volumeUp_volume)
next
  assume a: "minVolume < currentVolume s" and b: "currentVolume s \<le> maxVolume"
  then have "float_sub (currentVolume s) volumeStep < currentVolume s"
    by (intro float_sub_lt) (simp_all add: maxVolume_val)
  then show "currentVolume (volumeDown e s) < currentVolume s"
    using a by (simp add: volumeDown_volume)
qed (simp_all add: volumeUp_volume volumeDown_volume volumeUp_writes volumeDown_writes
    volume_at_bound_eeprom)

theorem volume_step_effects_witness:
  "maxVolume \<le> currentVolume (loadVolumeFromEEPROM (boot_state 100)) \<and>
   eeprom_writes (volumeUp no_files (loadVolumeFromEEPROM (boot_state 100))) =
     eeprom_writes (loadVolumeFromEEPROM (boot_state 100)) \<and>
   (\<exists>v. eeprom_writes (volumeDown no_files (loadVolumeFromEEPROM (boot_state 100))) =
     eeprom_writes (loadVolumeFromEEPROM (boot_state 100)) @ [(EEPROM_VOLUME_ADDRESS, v)])"
proof -
  have a: "maxVolume \<le> currentVolume (loadVolumeFromEEPROM (boot_state 100))"
    by (simp add: load_boot_100 maxVolume_val)
  have b: "minVolume < currentVolume (loadVolumeFromEEPROM (boot_state 100))"
    by (simp add: load_boot_100 minVolume_val)
  show ?thesis
    using volume_step_effects [of "loadVolumeFromEEPROM (boot_state 100)" no_files] a b
    by blast
qed

subsection \<open>Loading the volume\<close>

text \<open>
  Claim C8. When the stored byte is greater than 100, initialisation sets the volume
  to the default 0.5 and at once writes 50 to the volume address. When it is at most
  100, the volume is set to the stored value divided by 100, that is to the single
  precision value of the double precision quotient, within a relative error of
  \<open>2 ^ - 23\<close> of the exact quotient, and nothing is written.
\<close>

theorem load_self_heal:
  "(100 < uint (eeprom s EEPROM_VOLUME_ADDRESS) \<longrightarrow>
      currentVolume (loadVolumeFromEEPROM s) = 1 / 2 \<and>
      eeprom (loadVolumeFromEEPROM s) EEPROM_VOLUME_ADDRESS = 50 \<and>
      eeprom_writes (loadVolumeFromEEPROM s) = eeprom_writes s @ [(EEPROM_VOLUME_ADDRESS, 50)]) \<and>
   (uint (eeprom s EEPROM_VOLUME_ADDRESS) \<le> 100 \<longrightarrow>
      currentVolume (loadVolumeFromEEPROM s) =
        to_float (double_div (of_int (uint (eeprom s EEPROM_VOLUME_ADDRESS))) 100) \<and>
      \<bar>currentVolume (loadVolumeFromEEPROM s) - of_int (uint (eeprom s EEPROM_VOLUME_ADDRESS)) / 100\<bar>
        \<le> of_int (uint (eeprom s EEPROM_VOLUME_ADDRESS)) / 100 / 2 ^ 23 \<and>
      eeprom_writes (loadVolumeFromEEPROM s) = eeprom_writes s \<and>
      eeprom (loadVolumeFromEEPROM s) = eeprom s)"
proof (intro conjI impI)
  assume "uint (eeprom s EEPROM_VOLUME_ADDRESS) \<le> 100"
  have "(0::rat) \<le> of_int (uint (eeprom s EEPROM_VOLUME_ADDRESS)) / 100"
    by (simp del: of_int_uint)
  from float_of_double_error [OF this]
  show "\<bar>currentVolume (loadVolumeFromEEPROM s) - of_int (uint (eeprom s EEPROM_VOLUME_ADDRESS)) / 100\<bar>
        \<le> of_int (uint (eeprom s EEPROM_VOLUME_ADDRESS)) / 100 / 2 ^ 23"
    using \<open>uint (eeprom s EEPROM_VOLUME_ADDRESS) \<le> 100\<close>
    by (simp add: load_volume double_div_def del: of_int_uint)
qed (simp_all add: loadVolumeFromEEPROM_def EEPROM_read_def Let_def float_lit_half
    saveVolumeToEEPROM_def EEPROM_write_def half_times_100)

theorem load_self_heal_witness:
  "100 < uint (eeprom (boot_state 150) EEPROM_VOLUME_ADDRESS) \<and>
   currentVolume (loadVolumeFromEEPROM (boot_state 150)) = 1 / 2 \<and>
   eeprom (loadVolumeFromEEPROM (boot_state 150)) EEPROM_VOLUME_ADDRESS = 50 \<and>
   uint (eeprom (boot_state 50) EEPROM_VOLUME_ADDRESS) \<le> 100 \<and>
   eeprom_writes (loadVolumeFromEEPROM (boot_state 50)) = eeprom_writes (boot_state 50)"
proof -
  have a: "100 < uint (eeprom (boot_state 150) EEPROM_VOLUME_ADDRESS)"
    by simp
  have b: "uint (eeprom (boot_state 50) EEPROM_VOLUME_ADDRESS) \<le> 100"
    by simp
  show ?thesis
    using load_self_heal [of "boot_state 150"] load_self_heal [of "boot_state 50"] a b
    by blast
qed

section \<open>Classification of a decoded text\<close>

text \<open>
  \<open>toupper\<close> never produces or removes a NUL and is idempotent. On an array that
  holds a NUL, the in-place loop of lines 326 to 328 uppercases the C string and
  nothing else; for a C string of at most 27 characters \<open>searchAndPlayWAV\<close> builds its
  uppercase followed by \<open>.WAV\<close>, whatever the stack held in \<open>filename\<close>.
\<close>

lemma NUL_code [simp]: "of_char NUL = (0::nat)"
  by (simp add: NUL_def)

lemma of_char_toupper:
  "(of_char (toupper c) :: nat) =
     (if (97::nat) \<le> of_char c \<and> of_char c \<le> (122::nat) then of_char c - 32 else of_char c)"
  by (auto simp: toupper_def)

lemma toupper_eq_NUL [simp]: "toupper c = NUL \<longleftrightarrow> c = NUL"
proof -
  have "toupper c = NUL \<longleftrightarrow> of_char (toupper c) = (0::nat)"
    using of_char_eq_iff [of "toupper c" NUL, where ?'a = nat] by simp
  also have "\<dots> \<longleftrightarrow> of_char c = (0::nat)"
    by (auto simp: of_char_toupper)
  also have "\<dots> \<longleftrightarrow> c = NUL"
    using of_char_eq_iff [of c NUL, where ?'a = nat] by simp
  finally show ?thesis .
qed

lemma NUL_eq_toupper [simp]: "NUL = toupper c \<longleftrightarrow> c = NUL"
  using toupper_eq_NUL [of c] by (simp only: eq_commute [of NUL])

lemma toupper_idem [simp]: "toupper (toupper c) = toupper c"
proof -
  have "\<not> ((97::nat) \<le> of_char (toupper c) \<and> of_char (toupper c) \<le> (122::nat))"
    by (auto simp: of_char_toupper)
  then show ?thesis by (auto simp: toupper_def [of "toupper c"])
qed

lemma uppercase_idem [simp]: "uppercase (uppercase t) = uppercase t"
  by (simp add: uppercase_def)

lemma uppercase_no_NUL: "NUL \<notin> set t \<Longrightarrow> NUL \<notin> set (uppercase t)"
  by (auto simp: uppercase_def)

lemma c_str_append: "NUL \<notin> set t \<Longrightarrow> c_str (t @ NUL # rest) = t"
  by (induction t) (auto simp: c_str_def)

lemma c_str_no_NUL: "NUL \<notin> set (c_str a)"
  by (auto simp: c_str_def dest: set_takeWhileD)

lemma c_str_split: "NUL \<in> set a \<Longrightarrow> \<exists>rest. a = c_str a @ NUL # rest"
proof -
  assume "NUL \<in> set a"
  then have "dropWhile (\<lambda>c. c \<noteq> NUL) a \<noteq> []" by auto
  then obtain x rest where d: "dropWhile (\<lambda>c. c \<noteq> NUL) a = x # rest"
    by (cases "dropWhile (\<lambda>c. c \<noteq> NUL) a") auto
  then have "x = NUL" using hd_dropWhile [of "\<lambda>c. c \<noteq> NUL" a] by auto
  with d have "a = c_str a @ NUL # rest"
    using takeWhile_dropWhile_id [of "\<lambda>c. c \<noteq> NUL" a] by (simp add: c_str_def)
  then show ?thesis ..
qed

lemma upcase_split:
  "NUL \<notin> set t \<Longrightarrow>
   upcase (pre @ t @ NUL # rest) (int (length pre)) = Inr (pre @ uppercase t @ NUL # rest)"
proof (induction t arbitrary: pre)
  case Nil
  show ?case by (simp add: upcase.simps [of _ "int (length pre)"] rd_def uppercase_def)
next
  case (Cons c t)
  then have c: "c \<noteq> NUL" and t: "NUL \<notin> set t" by auto
  have "upcase ((pre @ [toupper c]) @ t @ NUL # rest) (int (length (pre @ [toupper c]))) =
        Inr ((pre @ [toupper c]) @ uppercase t @ NUL # rest)"
    by (rule Cons.IH [OF t])
  then show ?case
    using c by (simp add: upcase.simps [of _ "int (length pre)"] rd_def uppercase_def add.commute)
qed

lemma copy_upper_split:
  "length fdone = length pre \<Longrightarrow> length fa = length t \<Longrightarrow>
   len = int (length pre + length t) \<Longrightarrow> len \<le> 27 \<Longrightarrow>
   copy_upper (fdone @ fa @ frest) (pre @ t @ others) len (int (length pre)) =
     Inr (fdone @ uppercase t @ frest)"
proof (induction t arbitrary: pre fdone fa)
  case Nil
  then show ?case by (simp add: copy_upper.simps [of _ _ _ "int (length pre)"] uppercase_def)
next
  case (Cons c t)
  then obtain a fa' where fa: "fa = a # fa'" by (cases fa) auto
  have "copy_upper ((fdone @ [toupper c]) @ fa' @ frest) ((pre @ [c]) @ t @ others) len
          (int (length (pre @ [c]))) = Inr ((fdone @ [toupper c]) @ uppercase t @ frest)"
    using Cons.prems fa by (intro Cons.IH) simp_all
  moreover have "(fdone @ a # fa' @ frest)[length pre := toupper c] = fdone @ toupper c # fa' @ frest"
    using Cons.prems(1) [symmetric] by simp
  ultimately show ?case
    using Cons.prems fa
    by (simp add: copy_upper.simps [of _ _ _ "int (length pre)"] rd_def wr_def uppercase_def
        add.commute nth_append)
qed

lemma ext_no_NUL: "NUL \<notin> set ''.WAV''"
  by code_simp

lemma length_uppercase [simp]: "length (uppercase t) = length t"
  by (simp add: uppercase_def)

lemma searchAndPlayWAV_eq:
  assumes t: "NUL \<notin> set t" and len: "length t \<le> 27" and fn: "length (filename_stack e) = 32"
  shows "searchAndPlayWAV e (t @ NUL # rest) s =
     (if sd_exists e (uppercase t @ ''.WAV'')
      then Inr (True, s\<lparr>played := played s @ [uppercase t @ ''.WAV'']\<rparr>)
      else Inr (False, s))"
proof -
  let ?fa = "take (length t) (filename_stack e)"
  let ?fr = "drop (length t) (filename_stack e)"
  have sl: "strlen (t @ NUL # rest) = Inr (int (length t))"
    using t by (simp add: strlen_def c_str_append)
  obtain x fr where fr: "?fr = x # fr"
    using len fn by (cases ?fr) auto
  have "length ?fr = 32 - length t" using fn by simp
  then have "Suc (length fr) = 32 - length t" by (simp only: fr length_Cons)
  then have frl: "length fr = 31 - length t" by linarith
  have "copy_upper ([] @ ?fa @ ?fr) ([] @ t @ NUL # rest) (int (length t)) (int (length ([]::char list))) =
        Inr ([] @ uppercase t @ ?fr)"
    using len fn by (intro copy_upper_split) simp_all
  then have "copy_upper (?fa @ ?fr) (t @ NUL # rest) (int (length t)) 0 = Inr (uppercase t @ ?fr)"
    by simp
  then have cu: "copy_upper (filename_stack e) (t @ NUL # rest) (int (length t)) 0 =
        Inr (uppercase t @ x # fr)"
    unfolding append_take_drop_id by (simp only: fr)
  have w: "wr (uppercase t @ x # fr) (int (length t)) NUL = Inr (uppercase t @ NUL # fr)"
    using list_update_length [of "uppercase t" x fr NUL] by (simp add: wr_def)
  have un: "NUL \<notin> set (uppercase t)" using t by (rule uppercase_no_NUL)
  have sc: "strcat (uppercase t @ NUL # fr) ''.WAV'' =
        Inr (uppercase t @ ''.WAV'' @ NUL # drop 4 fr)"
    using un len frl by (simp add: strcat_def c_str_append Let_def)
  have "NUL \<notin> set (uppercase t @ ''.WAV'')" using un ext_no_NUL by simp
  then have cs: "c_str ((uppercase t @ ''.WAV'') @ NUL # drop 4 fr) = uppercase t @ ''.WAV''"
    by (rule c_str_append)
  show ?thesis
    using cs by (simp add: searchAndPlayWAV_def sl cu w sc)
qed

lemma handle_text_eq:
  assumes t: "NUL \<notin> set t" and len: "length t \<le> 27" and fn: "length (filename_stack e) = 32"
  shows "handle_text e (t @ NUL # rest) s = Inr (perform e (classify_spec t) s)"
proof -
  have "upcase ([] @ t @ NUL # rest) (int (length ([]::char list))) = Inr ([] @ uppercase t @ NUL # rest)"
    using t by (rule upcase_split)
  then have up: "upcase (t @ NUL # rest) 0 = Inr (uppercase t @ NUL # rest)" by simp
  have un: "NUL \<notin> set (uppercase t)" using t by (rule uppercase_no_NUL)
  have cs: "c_str (uppercase t @ NUL # rest) = uppercase t" using un by (rule c_str_append)
  have sp: "searchAndPlayWAV e (uppercase t @ NUL # rest) s =
     (if sd_exists e (uppercase t @ ''.WAV'')
      then Inr (True, s\<lparr>played := played s @ [uppercase t @ ''.WAV'']\<rparr>)
      else Inr (False, s))"
    using searchAndPlayWAV_eq [OF un _ fn, of rest s] len by simp
  show ?thesis
    by (simp add: handle_text_def up cs sp classify_spec_def perform_def)
qed

lemma decoded_c_string:
  assumes "length data \<le> 32" "maxTextLength \<le> int (length out)"
    and "parseNDEFTextRecord data (int (length data)) out maxTextLength = Inr (True, tb)"
  shows "NUL \<in> set tb \<and> length (c_str tb) \<le> 27"
proof -
  from assms(3) obtain j where tb: "tb = deliver out (text_at data j)"
    and acc: "accepts data maxTextLength j"
    using assms(2) by (auto simp: parse_eq find_Some_iff split: option.splits)
  have "int (length (text_at data j)) = text_len data j"
    using acc by (intro length_text_at) (simp_all add: accepts_def lengths_ok_def)
  moreover have "text_len data j \<le> int (length data) - 5"
    using acc by (simp add: accepts_def lengths_ok_def)
  ultimately have l: "length (text_at data j) \<le> 27" using assms(1) by linarith
  have "c_str tb = takeWhile (\<lambda>c. c \<noteq> NUL) (text_at data j)"
    by (simp add: tb deliver_def c_str_def takeWhile_tail)
  then have "length (c_str tb) \<le> length (text_at data j)"
    by (simp add: length_takeWhile_le)
  with l show ?thesis by (simp add: tb deliver_def)
qed

lemma parse_tag_museum:
  "parseNDEFTextRecord tag_museum 24 blank_text 128 = Inr (True, ''MUSEUM'' @ replicate 122 NUL)"
  by code_simp

lemma parse_tag_nul_text:
  "parseNDEFTextRecord tag_nul_text 24 blank_text 128 = Inr (True, blank_text)"
  by code_simp

lemma length_tag_nul_text [simp]: "length tag_nul_text = 24"
  by (simp add: tag_nul_text_def)

lemma decoded_form:
  assumes "length data \<le> 32" "maxTextLength \<le> int (length out)"
    and "parseNDEFTextRecord data (int (length data)) out maxTextLength = Inr (True, tb)"
  shows "\<exists>j. accepts data maxTextLength j \<and> tb = deliver out (text_at data j) \<and>
             c_str tb = c_str (text_at data j)"
proof -
  from assms(3) obtain j where tb: "tb = deliver out (text_at data j)"
    and acc: "accepts data maxTextLength j"
    using assms(2) by (auto simp: parse_eq find_Some_iff split: option.splits)
  have "c_str tb = c_str (text_at data j)"
    by (simp add: tb deliver_def c_str_def takeWhile_tail)
  with tb acc show ?thesis by blast
qed

lemma c_str_all: "NUL \<notin> set t \<Longrightarrow> c_str t = t"
  by (auto simp: c_str_def)

text \<open>
  Claim C6, amended. The decoder delivers the text bytes followed by a NUL, and the
  cycle reads them as a C string: let \<open>t\<close> be the decoded text up to its first NUL
  byte, all of it when it holds none. Classification of \<open>t\<close> is total: if
  \<open>uppercase t\<close> is \<open>VOLUMEUP\<close> the cycle performs \<open>volumeUp\<close>; else if it is
  \<open>VOLUMEDN\<close>, \<open>volumeDown\<close>; else it looks for the asset \<open>uppercase t\<close> followed
  by \<open>.WAV\<close>, plays it when present and the no-match asset otherwise. The empty
  string (a text that starts with a NUL) gives the asset \<open>.WAV\<close>. For a decoded
  text without a NUL byte this is the classification of the whole decoded text. The
  decoder's input is the page buffer, 24 bytes; up to 32 bytes the text has at most 27
  characters and fits \<open>filename[32]\<close>.
\<close>

theorem decoded_text_classified:
  assumes "length (filename_stack e) = 32" and "length data \<le> 32"
    and "maxTextLength \<le> int (length textOutput)"
    and "parseNDEFTextRecord data (int (length data)) textOutput maxTextLength = Inr (True, textBuffer)"
  shows "handle_text e textBuffer s = Inr (perform e (classify_spec (c_str textBuffer)) s) \<and>
         (\<exists>j. accepts data maxTextLength j \<and> textBuffer = deliver textOutput (text_at data j) \<and>
              c_str textBuffer = c_str (text_at data j) \<and>
              (NUL \<notin> set (text_at data j) \<longrightarrow>
                 handle_text e textBuffer s = Inr (perform e (classify_spec (text_at data j)) s)))"
proof -
  from decoded_c_string [OF assms(2-4)]
  have n: "NUL \<in> set textBuffer" and l: "length (c_str textBuffer) \<le> 27" by simp_all
  from c_str_split [OF n] obtain rest where r: "textBuffer = c_str textBuffer @ NUL # rest" ..
  have "handle_text e (c_str textBuffer @ NUL # rest) s =
        Inr (perform e (classify_spec (c_str textBuffer)) s)"
    using c_str_no_NUL l assms(1) by (rule handle_text_eq)
  with r have h: "handle_text e textBuffer s = Inr (perform e (classify_spec (c_str textBuffer)) s)"
    by simp
  from decoded_form [OF assms(2-4)] obtain j where j: "accepts data maxTextLength j"
    "textBuffer = deliver textOutput (text_at data j)" "c_str textBuffer = c_str (text_at data j)"
    by blast
  have "handle_text e textBuffer s = Inr (perform e (classify_spec (text_at data j)) s)"
    if "NUL \<notin> set (text_at data j)"
    using h j(3) c_str_all [OF that] by simp
  with h j show ?thesis by blast
qed

theorem decoded_text_classified_witness:
  "handle_text museum_card (''MUSEUM'' @ replicate 122 NUL) (boot_state 50) =
     Inr (perform museum_card (PlayAsset ''MUSEUM.WAV'') (boot_state 50)) \<and>
   handle_text museum_card blank_text (boot_state 50) =
     Inr (perform museum_card (PlayAsset ''.WAV'') (boot_state 50))"
proof -
  have f: "length (filename_stack museum_card) = 32" by (simp add: museum_card_def)
  have c1: "classify_spec (c_str (''MUSEUM'' @ replicate 122 NUL)) = PlayAsset ''MUSEUM.WAV''"
    by code_simp
  have c2: "classify_spec (c_str blank_text) = PlayAsset ''.WAV''"
    by code_simp
  have "handle_text museum_card (''MUSEUM'' @ replicate 122 NUL) (boot_state 50) =
     Inr (perform museum_card (classify_spec (c_str (''MUSEUM'' @ replicate 122 NUL))) (boot_state 50))"
    by (rule decoded_text_classified [where data = tag_museum and textOutput = blank_text
          and maxTextLength = 128, THEN conjunct1]) (simp_all add: f parse_tag_museum)
  moreover have "handle_text museum_card blank_text (boot_state 50) =
     Inr (perform museum_card (classify_spec (c_str blank_text)) (boot_state 50))"
    by (rule decoded_text_classified [where data = tag_nul_text and textOutput = blank_text
          and maxTextLength = 128, THEN conjunct1]) (simp_all add: f parse_tag_nul_text)
  ultimately show ?thesis by (simp only: c1 c2 simp_thms)
qed

text \<open>
  A decoded text with a NUL byte inside is not classified as a whole: the ten bytes
  \<open>VOLUMEUP\<close>, NUL, \<open>X\<close> are not a command name, and the classifier as specified
  asks for an asset; the cycle runs \<open>volumeUp\<close> and writes the new volume.
\<close>

lemma embedded_nul_text:
  "text_at tag_embedded_nul 0 = ''VOLUMEUP'' @ NUL # ''X''"
  by code_simp

lemma embedded_nul_parse:
  "parseNDEFTextRecord tag_embedded_nul 24 blank_text 128 =
     Inr (True, ''VOLUMEUP'' @ NUL # ''X'' @ replicate 118 NUL)"
  by code_simp

lemma embedded_nul_spec:
  "classify_spec (''VOLUMEUP'' @ NUL # ''X'') = PlayAsset (''VOLUMEUP'' @ NUL # ''X.WAV'')"
  by code_simp

lemma half_volume_up_writes:
  "eeprom_writes (volumeUp museum_card (boot_state 50)) = [(EEPROM_VOLUME_ADDRESS, 60)]"
  by code_simp

lemma no_asset_no_write:
  "eeprom_writes (perform museum_card (PlayAsset (''VOLUMEUP'' @ NUL # ''X.WAV'')) (boot_state 50)) = []"
  by code_simp

theorem embedded_nul_runs_volume_command:
  "text_at tag_embedded_nul 0 = ''VOLUMEUP'' @ NUL # ''X'' \<and>
   parseNDEFTextRecord tag_embedded_nul 24 blank_text 128 =
     Inr (True, ''VOLUMEUP'' @ NUL # ''X'' @ replicate 118 NUL) \<and>
   classify_spec (''VOLUMEUP'' @ NUL # ''X'') = PlayAsset (''VOLUMEUP'' @ NUL # ''X.WAV'') \<and>
   handle_text museum_card (''VOLUMEUP'' @ NUL # ''X'' @ replicate 118 NUL) (boot_state 50) =
     Inr (volumeUp museum_card (boot_state 50)) \<and>
   eeprom_writes (volumeUp museum_card (boot_state 50)) = [(EEPROM_VOLUME_ADDRESS, 60)] \<and>
   eeprom_writes (perform museum_card (PlayAsset (''VOLUMEUP'' @ NUL # ''X.WAV''))
     (boot_state 50)) = []"
proof -
  have n: "NUL \<notin> set ''VOLUMEUP''" by code_simp
  have c: "classify_spec ''VOLUMEUP'' = VolumeUp" by code_simp
  have "handle_text museum_card (''VOLUMEUP'' @ NUL # ''X'' @ replicate 118 NUL) (boot_state 50) =
        Inr (perform museum_card (classify_spec ''VOLUMEUP'') (boot_state 50))"
    using n by (rule handle_text_eq) (simp_all add: museum_card_def)
  then have h: "handle_text museum_card (''VOLUMEUP'' @ NUL # ''X'' @ replicate 118 NUL)
      (boot_state 50) = Inr (volumeUp museum_card (boot_state 50))"
    by (simp only: c perform_def command.case)
  show ?thesis
    by (simp only: embedded_nul_text embedded_nul_parse embedded_nul_spec h
        half_volume_up_writes no_asset_no_write simp_thms)
qed

section \<open>A failed page read\<close>

lemma read_pages_fail:
  "i \<le> k \<Longrightarrow> k < 10 \<Longrightarrow> rp k = None \<Longrightarrow> fst (read_pages rp i a d) = False"
proof (induction rp i a d rule: read_pages.induct)
  case (1 rp i a d)
  show ?case
  proof (cases "rp i")
    case None
    then show ?thesis using 1(3,4) by (simp add: read_pages.simps [of rp i])
  next
    case (Some pg)
    then have "i \<noteq> k" using 1(5) by auto
    then have ik: "i + 1 \<le> k" using 1(3) by simp
    have i10: "i < 10" using 1(3,4) by simp
    show ?thesis
      using 1(1) [OF i10 Some _ ik 1(4,5)] 1(2) [OF i10 Some _ ik 1(4,5)] Some i10
      by (simp add: read_pages.simps [of rp i])
  qed
qed

text \<open>
  Claim C9. In every poll cycle in which the read of one of the pages 4 to 9 fails,
  the state after the cycle is the state before it: nothing is decoded or acted on,
  nothing is played, the no-match asset included, and nothing is written to the
  EEPROM.
\<close>

theorem failed_page_read_aborts_cycle:
  assumes "tag e = Some (7, ntag2xx_ReadPage)" and "4 \<le> k" "k < 10"
    and "ntag2xx_ReadPage k = None"
  shows "loop e s = Inr s"
proof -
  obtain readSuccess allData dataIndex
    where r: "read_pages ntag2xx_ReadPage 4 [] 0 = (readSuccess, allData, dataIndex)"
    by (cases "read_pages ntag2xx_ReadPage 4 [] 0") auto
  have "fst (read_pages ntag2xx_ReadPage 4 [] 0) = False"
    using assms(2-4) by (rule read_pages_fail)
  then have "\<not> readSuccess" by (simp add: r)
  then show ?thesis
    using assms(1) by (simp add: loop_def r)
qed

theorem failed_page_read_aborts_cycle_witness:
  "loop fourth_page_fails (boot_state 50) = Inr (boot_state 50)"
  by (rule failed_page_read_aborts_cycle [where k = 7
        and ntag2xx_ReadPage = "\<lambda>i. if i = 7 then None else Some (0, 0, 0, 0)"])
    (simp_all add: fourth_page_fails_def)

section \<open>A complete cycle\<close>

text \<open>
  The whole cycle on a tag with a 7-byte UID whose pages decode to \<open>MUSEUM\<close>, with
  \<open>MUSEUM.WAV\<close> on the card: the file is played once, nothing else is played and
  nothing is written to the EEPROM.
\<close>

lemma museum_cycle:
  "(case loop museum_tag_present (boot_state 50) of
      Inl f \<Rightarrow> False
    | Inr s \<Rightarrow> played s = [''MUSEUM.WAV''] \<and> eeprom_writes s = [])"
  by code_simp

end
